theory Spec2Isabelle
  imports Complex_Main "HOL-Library.Word"
begin

unbundle bit_operations_syntax

section \<open>The C type float: IEEE-754 binary32\<close>

text \<open>
  A table entry is a C \<^verbatim>\<open>float\<close>. It is modelled by its 32-bit pattern (bit 31 the sign,
  bits 30..23 the biased exponent, bits 22..0 the fraction), so that a table in memory and a
  table in a file are the same data. Arithmetic decodes the operands to rationals, computes
  exactly, and rounds to nearest, ties to even, as the default rounding mode does.

  The two formats used by the program are described by the number of fraction bits \<open>fb\<close> and
  of exponent bits \<open>eb\<close>: (23, 8) for float and (52, 11) for double. A magnitude with exponent
  field \<open>e\<close> and fraction \<open>f\<close> is \<open>(2^fb + f) * 2^(e - 1) / 2^sh\<close> for \<open>e > 0\<close> and \<open>f / 2^sh\<close>
  for \<open>e = 0\<close>, where \<open>sh = 2^(eb - 1) - 2 + fb\<close> (149 and 1074).
\<close>

type_synonym float = "32 word"

definition fmt_shift :: "nat \<Rightarrow> nat \<Rightarrow> nat" where
  "fmt_shift fb eb = 2 ^ (eb - 1) - 2 + fb"

definition mag_of :: "nat \<Rightarrow> nat \<Rightarrow> nat \<Rightarrow> rat" where
  "mag_of fb eb b =
     (let e = b div 2 ^ fb mod 2 ^ eb; f = b mod 2 ^ fb
      in of_nat ((if e = 0 then 0 else 2 ^ fb) + f) * 2 ^ (e - 1) / 2 ^ fmt_shift fb eb)"

fun bitlen :: "nat \<Rightarrow> nat" where
  "bitlen n = (if n = 0 then 0 else Suc (bitlen (n div 2)))"

declare bitlen.simps [simp del]

definition round_even :: "rat \<Rightarrow> int" where
  "round_even q =
     (let f = \<lfloor>q\<rfloor>; r = q - of_int f
      in if r < 1 / 2 then f else if 1 / 2 < r then f + 1 else if even f then f else f + 1)"

text \<open>
  \<open>round_mag fb eb a\<close> is the bit pattern (without the sign) of the magnitude \<open>a \<ge> 0\<close> rounded
  to the format: the exponent field \<open>e\<close> is the one whose binade holds \<open>a\<close> (1 for a subnormal
  magnitude), the significand is \<open>a\<close> in units of the last place, rounded to the nearest
  integer, ties to even. A significand that rounds up to \<open>2^(fb+1)\<close> carries into the exponent
  field by the addition; a pattern at or beyond the all-ones exponent is infinity.
\<close>

definition round_mag :: "nat \<Rightarrow> nat \<Rightarrow> rat \<Rightarrow> nat" where
  "round_mag fb eb a =
     (let sh = fmt_shift fb eb;
          n = nat \<lfloor>a * 2 ^ sh\<rfloor>;
          e = min (2 ^ eb - 2) (max 1 (bitlen n - fb));
          m = nat (round_even (a * 2 ^ sh / 2 ^ (e - 1)));
          b = (e - 1) * 2 ^ fb + m
      in if (2 ^ eb - 1) * 2 ^ fb \<le> b then (2 ^ eb - 1) * 2 ^ fb else b)"

definition fsign :: "float \<Rightarrow> bool" where
  "fsign w = (2 ^ 31 \<le> unat w)"

definition fbits :: "float \<Rightarrow> nat" where
  "fbits w = unat w mod 2 ^ 31"

definition fexp :: "float \<Rightarrow> nat" where
  "fexp w = fbits w div 2 ^ 23"

definition ffrac :: "float \<Rightarrow> nat" where
  "ffrac w = fbits w mod 2 ^ 23"

definition is_nan :: "float \<Rightarrow> bool" where
  "is_nan w = (fexp w = 255 \<and> ffrac w \<noteq> 0)"

definition is_inf :: "float \<Rightarrow> bool" where
  "is_inf w = (fexp w = 255 \<and> ffrac w = 0)"

definition fmag :: "float \<Rightarrow> rat" where
  "fmag w = mag_of 23 8 (fbits w)"

text \<open>
  The value of a float that is not a NaN. An infinity takes the value \<open>\<plusminus>2^128\<close>, which the
  formula gives for its pattern and which lies beyond every finite float, so that the
  comparisons below order infinities as C does. Arithmetic treats infinities separately.
\<close>

definition valof :: "float \<Rightarrow> rat" where
  "valof w = (if fsign w then - fmag w else fmag w)"

definition mk_float :: "bool \<Rightarrow> nat \<Rightarrow> float" where
  "mk_float s b = of_nat ((if s then 2 ^ 31 else 0) + b)"

definition fround :: "bool \<Rightarrow> rat \<Rightarrow> float" where
  "fround s a = mk_float s (round_mag 23 8 a)"

definition fzero :: "bool \<Rightarrow> float" where
  "fzero s = mk_float s 0"

definition finf :: "bool \<Rightarrow> float" where
  "finf s = mk_float s (255 * 2 ^ 23)"

text \<open>
  C leaves the sign and payload of a NaN result to the platform; the model returns the
  quiet NaN \<^verbatim>\<open>0x7FC00000\<close>. No statement below depends on which NaN it is.
\<close>

definition fnan :: float where
  "fnan = mk_float False (255 * 2 ^ 23 + 2 ^ 22)"

text \<open>\<^verbatim>\<open>a + b\<close> on two floats.\<close>

definition fadd :: "float \<Rightarrow> float \<Rightarrow> float" where
  "fadd a b =
     (if is_nan a \<or> is_nan b then fnan
      else if is_inf a then (if is_inf b \<and> fsign a \<noteq> fsign b then fnan else a)
      else if is_inf b then b
      else let s = valof a + valof b
           in if s = 0 then fzero (fsign a \<and> fsign b) else fround (s < 0) \<bar>s\<bar>)"

text \<open>\<^verbatim>\<open>a / b\<close> on two floats.\<close>

definition fdiv :: "float \<Rightarrow> float \<Rightarrow> float" where
  "fdiv a b =
     (if is_nan a \<or> is_nan b then fnan
      else if is_inf a then (if is_inf b then fnan else finf (fsign a \<noteq> fsign b))
      else if is_inf b then fzero (fsign a \<noteq> fsign b)
      else if fmag b = 0 then (if fmag a = 0 then fnan else finf (fsign a \<noteq> fsign b))
      else fround (fsign a \<noteq> fsign b) (fmag a / fmag b))"

text \<open>
  \<^verbatim>\<open>x += 1.0\<close> on a float \<open>x\<close>: the constant is a double, so \<open>x\<close> is widened (exactly), the sum is
  rounded to double, and the assignment rounds the double to float.
\<close>

definition fadd_one :: "float \<Rightarrow> float" where
  "fadd_one x =
     (if is_nan x then fnan
      else if is_inf x then x
      else let s = valof x + 1
           in if s = 0 then fzero False
              else fround (s < 0) (mag_of 52 11 (round_mag 52 11 \<bar>s\<bar>)))"

text \<open>\<^verbatim>\<open>(float)n\<close> for an int \<open>n\<close>.\<close>

definition float_of_int :: "int \<Rightarrow> float" where
  "float_of_int n = fround (n < 0) \<bar>of_int n\<bar>"

text \<open>
  \<^verbatim>\<open>(int)x\<close>: truncation towards zero. For a NaN, an infinity or a value outside the range
  of int the conversion is undefined in C; the model gives what x86 gives, \<open>INT_MIN\<close>.
  \<open>build_ltr\<close> only converts counts, which are integers from 0 to \<open>2^24\<close>.
\<close>

definition int_of_float :: "float \<Rightarrow> int" where
  "int_of_float x =
     (if is_nan x \<or> is_inf x then - (2 ^ 31)
      else let n = (if fsign x then - \<lfloor>fmag x\<rfloor> else \<lfloor>fmag x\<rfloor>)
           in if - (2 ^ 31) \<le> n \<and> n < 2 ^ 31 then n else - (2 ^ 31))"

text \<open>Comparisons. Every ordered comparison with a NaN is false; \<^verbatim>\<open>!=\<close> with a NaN is true.\<close>

definition fless :: "float \<Rightarrow> float \<Rightarrow> bool" where
  "fless a b = (\<not> is_nan a \<and> \<not> is_nan b \<and> valof a < valof b)"

text \<open>\<^verbatim>\<open>x != 0.0\<close>, \<^verbatim>\<open>x == 0.0\<close> and \<^verbatim>\<open>x > 0.0\<close>.\<close>

definition fne0 :: "float \<Rightarrow> bool" where
  "fne0 x = (is_nan x \<or> valof x \<noteq> 0)"

definition feq0 :: "float \<Rightarrow> bool" where
  "feq0 x = (\<not> is_nan x \<and> valof x = 0)"

definition fgt0 :: "float \<Rightarrow> bool" where
  "fgt0 x = (\<not> is_nan x \<and> 0 < valof x)"

text \<open>
  The constants \<^verbatim>\<open>0.9999\<close> and \<^verbatim>\<open>1.0001\<close> of \<open>fix_ltr\<close> are doubles: the doubles nearest to
  the decimals, \<^verbatim>\<open>0x3FEFFF2E48E8A71E\<close> and \<^verbatim>\<open>0x3FF00068DB8BAC71\<close>. A float compared with one
  is widened exactly, so the comparison is one of rationals.
\<close>

definition dbl_0_9999 :: rat where
  "dbl_0_9999 = 4503149267407759 / 2 ^ 52"

definition dbl_1_0001 :: rat where
  "dbl_1_0001 = 4504049987333233 / 2 ^ 52"

text \<open>\<^verbatim>\<open>(x >= 0.9999) && (x <= 1.0001)\<close>\<close>

definition in_tolerance :: "float \<Rightarrow> bool" where
  "in_tolerance x = (\<not> is_nan x \<and> dbl_0_9999 \<le> valof x \<and> valof x \<le> dbl_1_0001)"

text \<open>\<^verbatim>\<open>(x < 0.9999) || (x > 1.0001)\<close>\<close>

definition off_tolerance :: "float \<Rightarrow> bool" where
  "off_tolerance x = (\<not> is_nan x \<and> (valof x < dbl_0_9999 \<or> dbl_1_0001 < valof x))"

text \<open>
  The interval of the specification: the value of \<open>x\<close> is a number from 0.9999 to 1.0001, the
  decimals taken exactly. Lemma \<open>in_tolerance_iff\<close> shows that no float tells it apart from the
  comparison with the two doubles.
\<close>

definition within_tolerance :: "float \<Rightarrow> bool" where
  "within_tolerance x =
     (\<not> is_nan x \<and> 9999 / 10000 \<le> valof x \<and> valof x \<le> 10001 / 10000)"


section \<open>The alphabet\<close>

definition NUM_LETTERS :: nat where
  "NUM_LETTERS = 28"

definition letters :: string where
  "letters = ''abcdefghijklmnopqrstuvwxyz'' @ [CHR 0x27, CHR ''-'']"

text \<open>\<open>idx\<close> returns \<open>-1\<close> for a character outside the alphabet, as the source does.\<close>

definition idx :: "char \<Rightarrow> int" where
  "idx letter =
     (if letter = CHR 0x27 then 26
      else if letter = CHR ''-'' then 27
      else if (of_char (CHR ''a'') :: nat) \<le> of_char letter
              \<and> (of_char letter :: nat) \<le> of_char (CHR ''z'')
           then int (of_char letter) - int (of_char (CHR ''a''))
      else - 1)"

section \<open>The table\<close>

text \<open>
  The structs of the source. A C array of \<open>NUM_LETTERS\<close> floats is a list; that every list
  has this length is the invariant \<open>wf_ltrfile\<close>, which the C types enforce.
\<close>

record cdf =
  start :: "float list"
  middle :: "float list"
  end_cdf :: "float list"

record ltrdata =
  singles :: cdf
  doubles :: "cdf list"
  triples :: "cdf list list"

record ltr_header =
  magic :: "8 word list"
  num_letters :: "8 word"

record ltrfile =
  header :: ltr_header
  data :: ltrdata

definition wf_cdf :: "cdf \<Rightarrow> bool" where
  "wf_cdf c = (length (start c) = NUM_LETTERS \<and> length (middle c) = NUM_LETTERS
                \<and> length (end_cdf c) = NUM_LETTERS)"

definition wf_row :: "cdf list \<Rightarrow> bool" where
  "wf_row row = (length row = NUM_LETTERS \<and> list_all wf_cdf row)"

definition wf_ltrdata :: "ltrdata \<Rightarrow> bool" where
  "wf_ltrdata d =
     (wf_cdf (singles d) \<and> wf_row (doubles d)
      \<and> length (triples d) = NUM_LETTERS \<and> list_all wf_row (triples d))"

definition wf_ltrfile :: "ltrfile \<Rightarrow> bool" where
  "wf_ltrfile t = (length (magic (header t)) = 8 \<and> wf_ltrdata (data t))"

definition LTR_MAGIC :: "8 word list" where
  "LTR_MAGIC = map of_char ''LTR V1.0''"

text \<open>
  The table after the first three statements of \<open>build_ltr\<close>:
  \<^verbatim>\<open>memset(ltr, 0, sizeof(*ltr)); strncpy(ltr->header.magic, "LTR V1.0", 8);
  ltr->header.num_letters = NUM_LETTERS;\<close>
\<close>

definition zero_cdf :: cdf where
  "zero_cdf = \<lparr> start = replicate NUM_LETTERS 0, middle = replicate NUM_LETTERS 0,
                end_cdf = replicate NUM_LETTERS 0 \<rparr>"

definition new_ltrfile :: ltrfile where
  "new_ltrfile =
     \<lparr> header = \<lparr> magic = LTR_MAGIC, num_letters = of_nat NUM_LETTERS \<rparr>,
       data = \<lparr> singles = zero_cdf, doubles = replicate NUM_LETTERS zero_cdf,
                triples = replicate NUM_LETTERS (replicate NUM_LETTERS zero_cdf) \<rparr> \<rparr>"

section \<open>The file format: \<open>load_ltr\<close> and the \<open>fwrite\<close> calls of \<open>build_ltr\<close>\<close>

text \<open>
  \<open>fread\<close> and \<open>fwrite\<close> copy the bytes of the structs. A float has four bytes, the least
  significant first on the machines the tool is built for (the format has no byte order
  mark). A file is its list of bytes; \<open>None\<close> is a file that cannot be opened.
\<close>

definition bytes_of_float :: "float \<Rightarrow> 8 word list" where
  "bytes_of_float w =
     (let n = unat w
      in [of_nat (n mod 256), of_nat (n div 256 mod 256),
          of_nat (n div 65536 mod 256), of_nat (n div 16777216)])"

definition float_of_bytes :: "8 word list \<Rightarrow> float" where
  "float_of_bytes bs =
     of_nat (unat (bs ! 0) + 256 * unat (bs ! 1) + 65536 * unat (bs ! 2)
             + 16777216 * unat (bs ! 3))"

definition sizeof_cdf :: nat where
  "sizeof_cdf = 3 * NUM_LETTERS * 4"

definition sizeof_ltrdata :: nat where
  "sizeof_ltrdata = sizeof_cdf * (1 + NUM_LETTERS + NUM_LETTERS * NUM_LETTERS)"

definition floats_bytes :: "float list \<Rightarrow> 8 word list" where
  "floats_bytes xs = concat (map bytes_of_float xs)"

definition cdf_bytes :: "cdf \<Rightarrow> 8 word list" where
  "cdf_bytes c = floats_bytes (start c) @ floats_bytes (middle c) @ floats_bytes (end_cdf c)"

definition row_bytes :: "cdf list \<Rightarrow> 8 word list" where
  "row_bytes row = concat (map cdf_bytes row)"

definition ltrdata_bytes :: "ltrdata \<Rightarrow> 8 word list" where
  "ltrdata_bytes d =
     cdf_bytes (singles d) @ row_bytes (doubles d) @ concat (map row_bytes (triples d))"

text \<open>
  \<^verbatim>\<open>fwrite(&ltr->header, 9, 1, f); fwrite(&ltr->data, sizeof(ltr->data), 1, f);\<close>
\<close>

definition write_ltr :: "ltrfile \<Rightarrow> 8 word list" where
  "write_ltr t = magic (header t) @ [num_letters (header t)] @ ltrdata_bytes (data t)"

primrec read_floats :: "nat \<Rightarrow> 8 word list \<Rightarrow> float list" where
  "read_floats 0 bs = []"
| "read_floats (Suc n) bs = float_of_bytes (take 4 bs) # read_floats n (drop 4 bs)"

definition read_cdf :: "8 word list \<Rightarrow> cdf" where
  "read_cdf bs =
     \<lparr> start = read_floats NUM_LETTERS bs,
       middle = read_floats NUM_LETTERS (drop (4 * NUM_LETTERS) bs),
       end_cdf = read_floats NUM_LETTERS (drop (8 * NUM_LETTERS) bs) \<rparr>"

primrec read_cdfs :: "nat \<Rightarrow> 8 word list \<Rightarrow> cdf list" where
  "read_cdfs 0 bs = []"
| "read_cdfs (Suc n) bs = read_cdf (take sizeof_cdf bs) # read_cdfs n (drop sizeof_cdf bs)"

primrec read_rows :: "nat \<Rightarrow> 8 word list \<Rightarrow> cdf list list" where
  "read_rows 0 bs = []"
| "read_rows (Suc n) bs =
     read_cdfs NUM_LETTERS (take (NUM_LETTERS * sizeof_cdf) bs)
     # read_rows n (drop (NUM_LETTERS * sizeof_cdf) bs)"

definition read_ltrdata :: "8 word list \<Rightarrow> ltrdata" where
  "read_ltrdata bs =
     \<lparr> singles = read_cdf (take sizeof_cdf bs),
       doubles = read_cdfs NUM_LETTERS (drop sizeof_cdf bs),
       triples = read_rows NUM_LETTERS (drop (sizeof_cdf + NUM_LETTERS * sizeof_cdf) bs) \<rparr>"

text \<open>Each \<open>die\<close> of \<open>load_ltr\<close> is an error value.\<close>

datatype load_error =
  Unable_to_open
  | No_valid_header
  | Wrong_num_letters "8 word"
  | Truncated_file

definition load_ltr :: "8 word list option \<Rightarrow> load_error + ltrfile" where
  "load_ltr f =
     (case f of
        None \<Rightarrow> Inl Unable_to_open
      | Some bs \<Rightarrow>
          if length bs < 9 \<or> take 8 bs \<noteq> LTR_MAGIC then Inl No_valid_header
          else if unat (bs ! 8) \<noteq> NUM_LETTERS then Inl (Wrong_num_letters (bs ! 8))
          else if length (drop 9 bs) < sizeof_ltrdata then Inl Truncated_file
          else Inr \<lparr> header = \<lparr> magic = take 8 bs, num_letters = bs ! 8 \<rparr>,
                     data = read_ltrdata (take sizeof_ltrdata (drop 9 bs)) \<rparr>)"

section \<open>\<open>fix_ltr\<close>\<close>

text \<open>What \<open>fix_ltr\<close> prints on stderr, in order.\<close>

datatype fix_msg =
  Correcting_middle
  | Correcting_end
  | Letter_line char float float float float
  | Warning_accumulator float
  | Corrections_completed

text \<open>
  The detection loop: \<open>iscorrupt\<close> starts at 3; bit 1 (value 2) is cleared when an entry of
  \<open>singles.middle\<close> is within the tolerance, bit 0 when one of \<open>singles.end\<close> is.
\<close>

function detect_loop :: "nat \<Rightarrow> float list \<Rightarrow> float list \<Rightarrow> nat \<Rightarrow> int \<Rightarrow> int" where
  "detect_loop n mid en i iscorrupt =
     (if i < n
      then let c1 = (if in_tolerance (mid ! i) then iscorrupt AND NOT 2 else iscorrupt);
               c2 = (if in_tolerance (en ! i) then c1 AND NOT 1 else c1)
           in detect_loop n mid en (i + 1) c2
      else iscorrupt)"
  by pat_completeness auto
termination
  by (relation "measure (\<lambda>(n, mid, en, i, c). n - i)") auto

declare detect_loop.simps [simp del]

text \<open>
  The repair loop over one array \<open>tab\<close>, with the locals of the source. The result is the
  repaired array, the final accumulator and the lines printed.
\<close>

function fix_loop ::
  "nat \<Rightarrow> nat \<Rightarrow> float list \<Rightarrow> float \<Rightarrow> float \<Rightarrow> float \<Rightarrow> fix_msg list
    \<Rightarrow> float list \<times> float \<times> fix_msg list" where
  "fix_loop n i tab accumulator prevval correction out =
     (if i < n
      then let uncorrected = tab ! i;
               correction' = (if fne0 (tab ! i) \<and> 0 < i \<and> feq0 prevval
                              then accumulator else correction);
               accumulator' = (if fne0 (tab ! i) then fadd (tab ! i) correction'
                               else accumulator);
               tab' = (if fne0 (tab ! i) then tab[i := accumulator'] else tab)
           in fix_loop n (i + 1) tab' accumulator' uncorrected correction'
                (out @ [Letter_line (letters ! i) uncorrected (tab' ! i) accumulator' correction'])
      else (tab, accumulator, out))"
  by pat_completeness auto
termination
  by (relation "measure (\<lambda>(n, i, tab, a, p, c, out). n - i)") auto

declare fix_loop.simps [simp del]

definition fix_table :: "nat \<Rightarrow> fix_msg \<Rightarrow> float list \<Rightarrow> float list \<times> fix_msg list" where
  "fix_table n announce tab =
     (case fix_loop n 0 tab 0 0 0 [announce] of
        (tab', accumulator, out) \<Rightarrow>
          (tab', out @ (if off_tolerance accumulator then [Warning_accumulator accumulator]
                        else [])))"

definition iscorrupt_of :: "ltrfile \<Rightarrow> int" where
  "iscorrupt_of ltr =
     detect_loop (unat (num_letters (header ltr))) (middle (singles (data ltr)))
       (end_cdf (singles (data ltr))) 0 3"

definition fix_ltr :: "ltrfile \<Rightarrow> ltrfile \<times> fix_msg list" where
  "fix_ltr ltr =
     (let n = unat (num_letters (header ltr));
          iscorrupt = iscorrupt_of ltr;
          (mid, out1) = (if iscorrupt AND 2 \<noteq> 0
                         then fix_table n Correcting_middle (middle (singles (data ltr)))
                         else (middle (singles (data ltr)), []));
          (en, out2) = (if iscorrupt AND 1 \<noteq> 0
                        then fix_table n Correcting_end (end_cdf (singles (data ltr)))
                        else (end_cdf (singles (data ltr)), []));
          out3 = (if iscorrupt \<noteq> 0 then [Corrections_completed] else [])
      in (ltr\<lparr> data := (data ltr)\<lparr> singles := (singles (data ltr))\<lparr> middle := mid, end_cdf := en \<rparr> \<rparr> \<rparr>,
          out1 @ out2 @ out3))"

subsection \<open>The repair as the specification words it\<close>

text \<open>
  The specification describes the repair of one array as a walk over the raw values with an
  accumulator and a pending offset. \<open>prev\<close> is the previous raw value, \<open>None\<close> at index 0.
  \<open>repair_stated\<close> follows the sentence to the letter: the raw value plus the offset is
  \<^emph>\<open>added to\<close> the accumulator. \<open>repair_walk\<close> differs in one place: the accumulator \<^emph>\<open>becomes\<close>
  the raw value plus the offset. Both return the repaired array and the final accumulator.
\<close>

fun repair_stated :: "float \<Rightarrow> float \<Rightarrow> float option \<Rightarrow> float list \<Rightarrow> float list \<times> float" where
  "repair_stated acc off prev [] = ([], acc)"
| "repair_stated acc off prev (x # xs) =
     (if fne0 x
      then let off' = (case prev of None \<Rightarrow> off | Some p \<Rightarrow> if feq0 p then acc else off);
               acc' = fadd acc (fadd x off')
           in case repair_stated acc' off' (Some x) xs of (ys, a) \<Rightarrow> (acc' # ys, a)
      else case repair_stated acc off (Some x) xs of (ys, a) \<Rightarrow> (x # ys, a))"

fun repair_walk :: "float \<Rightarrow> float \<Rightarrow> float option \<Rightarrow> float list \<Rightarrow> float list \<times> float" where
  "repair_walk acc off prev [] = ([], acc)"
| "repair_walk acc off prev (x # xs) =
     (if fne0 x
      then let off' = (case prev of None \<Rightarrow> off | Some p \<Rightarrow> if feq0 p then acc else off);
               acc' = fadd x off'
           in case repair_walk acc' off' (Some x) xs of (ys, a) \<Rightarrow> (acc' # ys, a)
      else case repair_walk acc off (Some x) xs of (ys, a) \<Rightarrow> (x # ys, a))"

text \<open>
  Tables for the examples: a fresh table with a given \<open>singles.middle\<close> and \<open>singles.end\<close>,
  and arrays of the floats 0.25 (\<^verbatim>\<open>0x3E800000\<close>), 0.5 (\<^verbatim>\<open>0x3F000000\<close>) and 1.0
  (\<^verbatim>\<open>0x3F800000\<close>).
\<close>

definition with_singles :: "float list \<Rightarrow> float list \<Rightarrow> ltrfile" where
  "with_singles mid en =
     new_ltrfile\<lparr> data := (data new_ltrfile)\<lparr> singles := zero_cdf\<lparr> middle := mid, end_cdf := en \<rparr> \<rparr> \<rparr>"

definition zeros :: "float list" where
  "zeros = replicate 28 0"

definition climbing :: "float list" where
  "climbing = [0x3E800000, 0x3F000000] @ replicate 26 0"

definition gapped :: "float list" where
  "gapped = [0x3E800000, 0, 0x3E800000] @ replicate 25 0"

definition gapped_half :: "float list" where
  "gapped_half = [0x3F000000, 0, 0x3F000000] @ replicate 25 0"

definition unit_first :: "float list" where
  "unit_first = [0x3F800000] @ replicate 27 0"

section \<open>\<open>build_ltr\<close>\<close>

subsection \<open>Reading the names\<close>

text \<open>
  Standard input is a list of bytes. \<^verbatim>\<open>scanf("%255s", buf)\<close> skips white space, then stores
  the characters up to the next white space, at most 255 of them, and returns 1; at the end
  of the input it returns \<open>EOF\<close>, which ends the loop. \<open>scan_tokens\<close> is the list of the
  buffers the loop sees. As a C string a buffer ends at its first NUL (\<open>c_string\<close>).
  \<open>isspace\<close> and \<open>tolower\<close> are those of the C locale.
\<close>

definition isspace :: "char \<Rightarrow> bool" where
  "isspace c = (c = CHR '' '' \<or> (9 :: nat) \<le> of_char c \<and> (of_char c :: nat) \<le> 13)"

definition tolower :: "char \<Rightarrow> char" where
  "tolower c =
     (if (of_char (CHR ''A'') :: nat) \<le> of_char c \<and> (of_char c :: nat) \<le> of_char (CHR ''Z'')
      then char_of (of_char c + (32 :: nat)) else c)"

function scan_tokens :: "string \<Rightarrow> string list" where
  "scan_tokens inp =
     (let s = dropWhile isspace inp
      in if s = [] then []
         else let w = take 255 (takeWhile (\<lambda>c. \<not> isspace c) s)
              in w # scan_tokens (drop (length w) s))"
  by pat_completeness auto
termination
proof (relation "measure length")
  fix inp s w
  assume s: "s = dropWhile isspace inp" and ne: "s \<noteq> []"
    and w: "w = take 255 (takeWhile (\<lambda>c. \<not> isspace c) s)"
  from ne obtain c cs where cs: "s = c # cs" by (cases s) auto
  have "dropWhile isspace inp \<noteq> []" using ne s by simp
  from hd_dropWhile [OF this] have "\<not> isspace (hd s)" by (simp add: s)
  then have "\<not> isspace c" by (simp add: cs)
  then have "w \<noteq> []" using w cs by simp
  then have "length (drop (length w) s) < length s" using ne by (cases w) auto
  also have "length s \<le> length inp" unfolding s by (rule length_dropWhile_le)
  finally show "(drop (length w) s, inp) \<in> measure length" by simp
qed simp

declare scan_tokens.simps [simp del]

text \<open>
  A token longer than 255 characters is read by \<^verbatim>\<open>%255s\<close> in consecutive pieces of 255
  characters, the last one shorter.
\<close>

function pieces :: "string \<Rightarrow> string list" where
  "pieces tok = (if tok = [] then [] else take 255 tok # pieces (drop 255 tok))"
  by pat_completeness auto

termination
  by (relation "measure length") auto

declare pieces.simps [simp del]

definition c_string :: "string \<Rightarrow> string" where
  "c_string buf = takeWhile (\<lambda>c. c \<noteq> CHR 0x00) buf"

subsection \<open>Cleaning a name\<close>

text \<open>What \<open>build_ltr\<close> prints on stderr: the invalid character with the buffer, and the name
  that is too short.\<close>

datatype build_msg =
  Invalid_character char string
  | Name_too_short string

text \<open>
  The loop over \<open>r\<close> that fills \<open>buf2\<close>: \<open>seen\<close> is the part of \<open>buf\<close> before \<open>r\<close>, already
  lowercased in place. The result is \<open>buf2\<close> and the lines printed.
\<close>

fun clean_chars :: "string \<Rightarrow> string \<Rightarrow> string \<times> build_msg list" where
  "clean_chars seen [] = ([], [])"
| "clean_chars seen (r # rest) =
     (if r = CHR ''#'' then ([], [])
      else let c = tolower r
           in case clean_chars (seen @ [c]) rest of
                (buf2, out) \<Rightarrow>
                  if idx c = - 1 then (buf2, Invalid_character c (seen @ c # rest) # out)
                  else (c # buf2, out))"

subsection \<open>Counting a name\<close>

datatype position = At_start | At_middle | At_end

text \<open>\<^verbatim>\<open>c.start[k] += 1.0\<close>, and the same for \<open>middle\<close> and \<open>end\<close>.\<close>

fun bump_cdf :: "position \<Rightarrow> nat \<Rightarrow> cdf \<Rightarrow> cdf" where
  "bump_cdf At_start k c = c\<lparr> start := (start c)[k := fadd_one (start c ! k)] \<rparr>"
| "bump_cdf At_middle k c = c\<lparr> middle := (middle c)[k := fadd_one (middle c ! k)] \<rparr>"
| "bump_cdf At_end k c = c\<lparr> end_cdf := (end_cdf c)[k := fadd_one (end_cdf c ! k)] \<rparr>"

definition bump_single :: "position \<Rightarrow> nat \<Rightarrow> ltrdata \<Rightarrow> ltrdata" where
  "bump_single pos i d = d\<lparr> singles := bump_cdf pos i (singles d) \<rparr>"

definition bump_double :: "position \<Rightarrow> nat \<Rightarrow> nat \<Rightarrow> ltrdata \<Rightarrow> ltrdata" where
  "bump_double pos i j d = d\<lparr> doubles := (doubles d)[i := bump_cdf pos j (doubles d ! i)] \<rparr>"

definition bump_triple :: "position \<Rightarrow> nat \<Rightarrow> nat \<Rightarrow> nat \<Rightarrow> ltrdata \<Rightarrow> ltrdata" where
  "bump_triple pos i j k d =
     d\<lparr> triples := (triples d)[i := (triples d ! i)[j := bump_cdf pos k (triples d ! i ! j)]] \<rparr>"

text \<open>
  The three increments for the symbols at \<open>p[0]\<close>, \<open>p[1]\<close>, \<open>p[2]\<close> of the name \<open>w\<close>, with \<open>p\<close> an
  offset into \<open>buf2\<close>. The characters of \<open>buf2\<close> are in the alphabet, so \<open>idx\<close> is not \<open>-1\<close>.
\<close>

definition letter_at :: "string \<Rightarrow> nat \<Rightarrow> nat" where
  "letter_at w p = nat (idx (w ! p))"

definition bump_window :: "position \<Rightarrow> string \<Rightarrow> nat \<Rightarrow> ltrdata \<Rightarrow> ltrdata" where
  "bump_window pos w p d =
     bump_triple pos (letter_at w p) (letter_at w (p + 1)) (letter_at w (p + 2))
       (bump_double pos (letter_at w p) (letter_at w (p + 1))
         (bump_single pos (letter_at w p) d))"

text \<open>
  The increments of the \<open>end\<close> counters, with \<open>q\<close> the offset of the last character:
  \<open>singles.end[q[0]]\<close>, \<open>doubles[q[-1]].end[q[0]]\<close>, \<open>triples[q[-2]][q[-1]].end[q[0]]\<close>.
\<close>

definition bump_end :: "string \<Rightarrow> nat \<Rightarrow> ltrdata \<Rightarrow> ltrdata" where
  "bump_end w q d =
     bump_triple At_end (letter_at w (q - 2)) (letter_at w (q - 1)) (letter_at w q)
       (bump_double At_end (letter_at w (q - 1)) (letter_at w q)
         (bump_single At_end (letter_at w q) d))"

text \<open>
  \<^verbatim>\<open>while (++p != q-2) { ... }\<close>. The loop ends only when \<open>p\<close> meets \<open>q - 2\<close>; a run that never
  does has no result (\<open>None\<close>).
\<close>

partial_function (option) middle_loop :: "string \<Rightarrow> nat \<Rightarrow> nat \<Rightarrow> ltrdata \<Rightarrow> ltrdata option" where
  "middle_loop w q p d =
     (if p + 1 \<noteq> q - 2 then middle_loop w q (p + 1) (bump_window At_middle w (p + 1) d)
      else Some d)"

declare middle_loop.simps [code]

definition count_name :: "string \<Rightarrow> ltrdata \<Rightarrow> ltrdata option" where
  "count_name buf2 d =
     (let q = length buf2 - 1;
          d' = bump_end buf2 q (bump_window At_start buf2 0 d)
      in if q = 2 then Some d' else middle_loop buf2 q 0 d')"

text \<open>The body of the \<open>while (scanf ...)\<close> loop, for the buffers read.\<close>

fun build_loop ::
  "string list \<Rightarrow> ltrdata \<Rightarrow> build_msg list \<Rightarrow> (ltrdata \<times> build_msg list) option" where
  "build_loop [] d out = Some (d, out)"
| "build_loop (buf # bufs) d out =
     (case clean_chars [] (c_string buf) of
        (buf2, msgs) \<Rightarrow>
          if length buf2 < 3 then build_loop bufs d (out @ msgs @ [Name_too_short buf2])
          else case count_name buf2 d of
                 None \<Rightarrow> None
               | Some d' \<Rightarrow> build_loop bufs d' (out @ msgs))"

subsection \<open>From counts to cumulative distributions\<close>

text \<open>The first inner loop: \<^verbatim>\<open>startcount += (int)start[i]\<close> for \<open>i < n\<close>.\<close>

definition sum_counts :: "nat \<Rightarrow> float list \<Rightarrow> int" where
  "sum_counts n xs = fold (\<lambda>i total. total + int_of_float (xs ! i)) [0..<n] 0"

text \<open>
  \<^verbatim>\<open>if (x[i] > 0.0) { x[i] /= (float)count; acc = x[i] += acc; }\<close> on one array: the new
  array and accumulator.
\<close>

definition normalize_step :: "int \<Rightarrow> nat \<Rightarrow> float list \<times> float \<Rightarrow> float list \<times> float" where
  "normalize_step count i xa =
     (case xa of
        (xs, acc) \<Rightarrow>
          if fgt0 (xs ! i)
          then let v = fadd (fdiv (xs ! i) (float_of_int count)) acc in (xs[i := v], v)
          else (xs, acc))"

text \<open>The second inner loop, with the locals \<open>s\<close>, \<open>m\<close>, \<open>e\<close> of the source, on one \<open>struct cdf\<close>.\<close>

function normalize_loop ::
  "nat \<Rightarrow> nat \<Rightarrow> int \<Rightarrow> int \<Rightarrow> int \<Rightarrow> cdf \<Rightarrow> float \<Rightarrow> float \<Rightarrow> float \<Rightarrow> cdf" where
  "normalize_loop n i startcount midcount endcount c s m e =
     (if i < n
      then case normalize_step startcount i (start c, s) of
             (st, s') \<Rightarrow>
               case normalize_step endcount i (end_cdf c, e) of
                 (en, e') \<Rightarrow>
                   case normalize_step midcount i (middle c, m) of
                     (mi, m') \<Rightarrow>
                       normalize_loop n (i + 1) startcount midcount endcount
                         \<lparr> start = st, middle = mi, end_cdf = en \<rparr> s' m' e'
      else c)"
  by pat_completeness auto
termination
  by (relation "measure (\<lambda>(n, i, rest). n - i)") auto

declare normalize_loop.simps [simp del]

definition normalize_cdf :: "nat \<Rightarrow> cdf \<Rightarrow> cdf" where
  "normalize_cdf n c =
     normalize_loop n 0 (sum_counts n (start c)) (sum_counts n (middle c))
       (sum_counts n (end_cdf c)) c 0 0 0"

text \<open>The three blocks after the reading loop: singles, doubles, triples.\<close>

definition normalize_row :: "nat \<Rightarrow> cdf list \<Rightarrow> cdf list" where
  "normalize_row n row = fold (\<lambda>j r. r[j := normalize_cdf n (r ! j)]) [0..<n] row"

definition normalize_ltrdata :: "nat \<Rightarrow> ltrdata \<Rightarrow> ltrdata" where
  "normalize_ltrdata n d =
     \<lparr> singles = normalize_cdf n (singles d),
       doubles = normalize_row n (doubles d),
       triples = fold (\<lambda>i t. t[i := normalize_row n (t ! i)]) [0..<n] (triples d) \<rparr>"

text \<open>
  The table in memory when the reading and the three blocks are done, and what was printed.
\<close>

definition build_table :: "string \<Rightarrow> (ltrfile \<times> build_msg list) option" where
  "build_table inp =
     (case build_loop (scan_tokens inp) (data new_ltrfile) [] of
        None \<Rightarrow> None
      | Some (d, out) \<Rightarrow>
          Some (new_ltrfile\<lparr> data := normalize_ltrdata (unat (num_letters (header new_ltrfile))) d \<rparr>,
                out))"

text \<open>
  \<open>build_ltr\<close>: the table, and the file written by the two \<open>fwrite\<close> calls; \<open>die\<close> when the file
  cannot be created (\<open>can_create\<close> is the outcome of \<open>fopen\<close>).
\<close>

datatype build_error = Unable_to_create

definition build_ltr ::
  "bool \<Rightarrow> string \<Rightarrow> ((build_error + ltrfile \<times> 8 word list) \<times> build_msg list) option" where
  "build_ltr can_create inp =
     (case build_table inp of
        None \<Rightarrow> None
      | Some (ltr, out) \<Rightarrow>
          Some (if can_create then Inr (ltr, write_ltr ltr) else Inl Unable_to_create, out))"

section \<open>\<open>random_name\<close>\<close>

text \<open>
  \<open>rand()\<close> is an input: the sampler reads its values, integers from 0 to \<open>RAND_MAX\<close>, from a
  list, in the order of the calls. \<open>RAND_MAX\<close> is the value of the GNU C library. \<open>nrand\<close> divides
  two floats: \<^verbatim>\<open>(float)rand() / RAND_MAX\<close> converts \<open>RAND_MAX\<close> to float as well.
\<close>

definition RAND_MAX :: int where
  "RAND_MAX = 2147483647"

definition nrand :: "nat \<Rightarrow> float" where
  "nrand r = fdiv (float_of_int (int r)) (float_of_int RAND_MAX)"

definition toupper :: "char \<Rightarrow> char" where
  "toupper c =
     (if (of_char (CHR ''a'') :: nat) \<le> of_char c \<and> (of_char c :: nat) \<le> of_char (CHR ''z'')
      then char_of (of_char c - (32 :: nat)) else c)"

text \<open>
  \<^verbatim>\<open>for (i = 0; i < n; i++) if (prob < tab[i]) break;\<close> The result is the value of \<open>i\<close> after
  the loop: \<open>n\<close> when no entry exceeds \<open>prob\<close>.
\<close>

function scan_loop :: "nat \<Rightarrow> float \<Rightarrow> float list \<Rightarrow> nat \<Rightarrow> nat" where
  "scan_loop n prob tab i =
     (if i < n then (if fless prob (tab ! i) then i else scan_loop n prob tab (i + 1)) else i)"
  by pat_completeness auto
termination
  by (relation "measure (\<lambda>(n, prob, tab, i). n - i)") auto

declare scan_loop.simps [simp del]

text \<open>\<open>triples[idx(p[-2])][idx(p[-1])]\<close>, with \<open>p\<close> the end of the name so far.\<close>

definition name_context :: "ltrfile \<Rightarrow> string \<Rightarrow> cdf" where
  "name_context ltr name =
     triples (data ltr) ! nat (idx (name ! (length name - 2))) ! nat (idx (name ! (length name - 1)))"

text \<open>\<^verbatim>\<open>namebuf[0] = toupper(namebuf[0]);\<close>\<close>

definition capitalize :: "string \<Rightarrow> string" where
  "capitalize name = toupper (hd name) # tl name"

text \<open>
  The places of the control flow: \<open>Again\<close> is the label \<open>again\<close> (the first scan), \<open>Second\<close> and
  \<open>Third\<close> the second and third scan, \<open>Extending\<close> the head of the \<open>while (1)\<close> loop. They carry
  \<open>namebuf\<close> up to \<open>p\<close> and, in the loop, \<open>attempts\<close>.

  \<open>step\<close> runs the code from one place to the next: it reads one random value (two in the
  loop) and either goes to a place, or returns the name, or writes past the 256 bytes of
  \<open>namebuf\<close>. It is \<open>None\<close> when the random values are used up.
\<close>

datatype place = Again | Second string | Third string | Extending string nat

datatype action = Goto place | Return string | Overflow

fun step :: "ltrfile \<Rightarrow> place \<Rightarrow> nat list \<Rightarrow> (action \<times> nat list) option" where
  "step ltr Again (r # rs) =
     (let n = unat (num_letters (header ltr));
          i = scan_loop n (nrand r) (start (singles (data ltr))) 0
      in Some (if i = n then Goto Again else Goto (Second [letters ! i]), rs))"
| "step ltr (Second name) (r # rs) =
     (let n = unat (num_letters (header ltr));
          i = scan_loop n (nrand r)
                (start (doubles (data ltr) ! nat (idx (name ! (length name - 1))))) 0
      in Some (if i = n then Goto Again else Goto (Third (name @ [letters ! i])), rs))"
| "step ltr (Third name) (r # rs) =
     (let n = unat (num_letters (header ltr));
          i = scan_loop n (nrand r) (start (name_context ltr name)) 0
      in Some (if i = n then Goto Again else Goto (Extending (name @ [letters ! i]) 0), rs))"
| "step ltr (Extending name attempts) (r1 # r2 # rs) =
     (let n = unat (num_letters (header ltr));
          prob = nrand r1
      in if r2 mod 12 \<le> length name \<and> scan_loop n prob (end_cdf (name_context ltr name)) 0 < n
         then Some (if length name + 1 < 256
                    then Return (capitalize
                           (name @ [letters ! scan_loop n prob (end_cdf (name_context ltr name)) 0]))
                    else Overflow, rs)
         else let i = scan_loop n prob (middle (name_context ltr name)) 0
              in Some (if i < n
                       then if length name < 256 then Goto (Extending (name @ [letters ! i]) attempts)
                            else Overflow
                       else if length name - 1 < 3 \<or> 100 < attempts + 1 then Goto Again
                            else Goto (Extending (butlast name) (attempts + 1)), rs))"
| "step ltr pl rs = None"

text \<open>
  A call of \<open>random_name\<close> that returns gives a name, or has overflowed \<open>namebuf\<close>. \<open>None\<close> is a
  call that has not returned when the list of random values is used up.
\<close>

datatype outcome = Name string | Buffer_overflow

lemma step_shorter: "step ltr pl rs = Some (a, rs') \<Longrightarrow> length rs' < length rs"
  by (induction ltr pl rs rule: step.induct) (auto simp add: Let_def split: if_splits)

function run :: "ltrfile \<Rightarrow> place \<Rightarrow> nat list \<Rightarrow> outcome option" where
  "run ltr pl rs =
     (case step ltr pl rs of
        None \<Rightarrow> None
      | Some (Return w, rs') \<Rightarrow> Some (Name w)
      | Some (Overflow, rs') \<Rightarrow> Some Buffer_overflow
      | Some (Goto pl', rs') \<Rightarrow> run ltr pl' rs')"
  by pat_completeness auto
termination
  by (relation "measure (\<lambda>(ltr, pl, rs). length rs)") (auto dest: step_shorter)

declare run.simps [simp del]

definition random_name :: "ltrfile \<Rightarrow> nat list \<Rightarrow> outcome option" where
  "random_name ltr draws = run ltr Again draws"

text \<open>
  The scan as the specification words it: the first index, in increasing order, whose
  cumulative value exceeds the draw, if there is one.
\<close>

definition qualifying_index :: "nat \<Rightarrow> float \<Rightarrow> float list \<Rightarrow> nat option" where
  "qualifying_index n prob tab = find (\<lambda>i. fless prob (tab ! i)) [0..<n]"

text \<open>
  What the loop does after the end scan, as the specification words it: a middle scan; a
  symbol found is appended; when none is found (a dead end) the word is restarted if it would
  be shorter than 3 symbols without its last one or if this is more than the 100th dead end,
  and otherwise loses its last symbol.
\<close>

definition continue_extending :: "ltrfile \<Rightarrow> string \<Rightarrow> nat \<Rightarrow> float \<Rightarrow> action" where
  "continue_extending ltr name attempts prob =
     (case qualifying_index (unat (num_letters (header ltr))) prob (middle (name_context ltr name)) of
        Some j \<Rightarrow>
          if length name < 256 then Goto (Extending (name @ [letters ! j]) attempts) else Overflow
      | None \<Rightarrow>
          if length (butlast name) < 3 \<or> 100 < attempts + 1 then Goto Again
          else Goto (Extending (butlast name) (attempts + 1)))"

text \<open>The length of \<open>namebuf\<close> up to \<open>p\<close> at each place.\<close>

fun place_length :: "place \<Rightarrow> nat \<Rightarrow> bool" where
  "place_length Again k = True"
| "place_length (Second name) k = (length name = 1)"
| "place_length (Third name) k = (length name = 2)"
| "place_length (Extending name attempts) k = (k \<le> length name)"

text \<open>
  Tables for the examples, with the same \<open>struct cdf\<close> for every context: one in which the
  first symbol always qualifies, and one in which it does so at the start only.
\<close>

definition uniform_table :: "cdf \<Rightarrow> ltrfile" where
  "uniform_table c =
     new_ltrfile\<lparr> data := \<lparr> singles = c, doubles = replicate 28 c,
                            triples = replicate 28 (replicate 28 c) \<rparr> \<rparr>"

definition unit_cdf :: cdf where
  "unit_cdf = \<lparr> start = unit_first, middle = unit_first, end_cdf = unit_first \<rparr>"

definition start_only_cdf :: cdf where
  "start_only_cdf = \<lparr> start = unit_first, middle = zeros, end_cdf = zeros \<rparr>"

section \<open>Notions of the specification, and examples\<close>

subsection \<open>Cleaning and counting as the specification words them\<close>

text \<open>
  The cleaned token of the specification: cut at the first \<open>#\<close>, lowercased, the characters
  outside the alphabet removed; and the characters it drops.
\<close>

definition clean_spec :: "string \<Rightarrow> string" where
  "clean_spec tok =
     filter (\<lambda>c. idx c \<noteq> - 1) (map tolower (takeWhile (\<lambda>c. c \<noteq> CHR ''#'') tok))"

definition dropped_spec :: "string \<Rightarrow> string" where
  "dropped_spec tok =
     filter (\<lambda>c. idx c = - 1) (map tolower (takeWhile (\<lambda>c. c \<noteq> CHR ''#'') tok))"

text \<open>
  The counts of one cleaned name \<open>w\<close>: the start window (offset 0), the end window, and the
  windows of three symbols strictly between the two, at offsets \<open>0 < p < length w - 3\<close>.
\<close>

definition count_name_spec :: "string \<Rightarrow> ltrdata \<Rightarrow> ltrdata" where
  "count_name_spec w d =
     fold (bump_window At_middle w) [1..<length w - 3]
       (bump_end w (length w - 1) (bump_window At_start w 0 d))"

subsection \<open>Counts, and the normalization of one array\<close>

text \<open>
  A count is a float that holds an integer from 0 to \<open>2^24\<close>, as the entries of the table do
  between the reading loop and the normalization. \<open>each_array\<close> and \<open>each_cdf\<close> say that a
  property holds of the three arrays of a \<open>struct cdf\<close>, and of every \<open>struct cdf\<close> of a table.
  \<open>normalize_array\<close> is the normalization loop of the source on one array alone, and
  \<open>normalize_list\<close> the same walk along the list, without indices.
\<close>

definition is_count :: "float \<Rightarrow> bool" where
  "is_count x =
     (\<not> is_nan x \<and> \<not> is_inf x \<and> \<not> fsign x \<and> fmag x = of_int \<lfloor>fmag x\<rfloor> \<and> fmag x \<le> 2 ^ 24)"

definition each_array :: "(float list \<Rightarrow> bool) \<Rightarrow> cdf \<Rightarrow> bool" where
  "each_array P c = (P (start c) \<and> P (middle c) \<and> P (end_cdf c))"

definition each_cdf :: "(cdf \<Rightarrow> bool) \<Rightarrow> ltrdata \<Rightarrow> bool" where
  "each_cdf Q d = (Q (singles d) \<and> list_all Q (doubles d) \<and> list_all (list_all Q) (triples d))"

definition normalize_array :: "nat \<Rightarrow> float list \<Rightarrow> float list" where
  "normalize_array n xs = fst (fold (normalize_step (sum_counts n xs)) [0..<n] (xs, 0))"

fun normalize_list :: "float \<Rightarrow> float \<Rightarrow> float list \<Rightarrow> float list" where
  "normalize_list dv acc [] = []"
| "normalize_list dv acc (x # xs) =
     (if fgt0 x
      then let v = fadd (fdiv x dv) acc in v # normalize_list dv v xs
      else x # normalize_list dv acc xs)"

subsection \<open>Tables for the examples of the sampler\<close>

text \<open>
  Tables in which a word grows for ever: every context has \<open>start\<close> = \<open>middle\<close> = 1, 0, ..., and
  an \<open>end\<close> array that is all zero, or 0.5, 0, .... And a table whose only nonzero array is
  the \<open>end\<close> array 0, 0.5, 1, 0, ... of \<open>triples[a][b]\<close>.
\<close>

definition growing_cdf :: cdf where
  "growing_cdf = \<lparr> start = unit_first, middle = unit_first, end_cdf = zeros \<rparr>"

definition half_end_cdf :: cdf where
  "half_end_cdf = \<lparr> start = unit_first, middle = unit_first,
                    end_cdf = [0x3F000000] @ replicate 27 0 \<rparr>"

definition context_table :: ltrfile where
  "context_table =
     new_ltrfile\<lparr> data := (data new_ltrfile)\<lparr> triples :=
       (triples (data new_ltrfile))[0 := (triples (data new_ltrfile) ! 0)[1 :=
          \<lparr> start = zeros, middle = zeros,
            end_cdf = [0, 0x3F000000, 0x3F800000] @ replicate 25 0 \<rparr>]] \<rparr> \<rparr>"

subsection \<open>Arrays that a second repair leaves alone\<close>

text \<open>
  An array without a gap: no zero entry lies between two nonzero entries. After the leading
  zeros and the nonzero entries that follow them, all entries are zero.
\<close>

definition gap_free :: "float list \<Rightarrow> bool" where
  "gap_free xs = list_all feq0 (dropWhile fne0 (dropWhile feq0 xs))"

definition settled :: "float list \<Rightarrow> bool" where
  "settled xs = (list_ex within_tolerance xs \<or> gap_free xs)"

subsection \<open>The middle counts, array by array\<close>

text \<open>
  \<^verbatim>\<open>xs[k] += 1.0\<close> on one array. The positions of a name of length \<open>n\<close> that are neither
  among the first two nor among the last two are 2, ..., \<open>n - 3\<close>; \<open>singles_middle_stated\<close>
  counts the symbols at these positions.
\<close>

definition bump_at :: "nat \<Rightarrow> float list \<Rightarrow> float list" where
  "bump_at k xs = xs[k := fadd_one (xs ! k)]"

definition inner_positions :: "string \<Rightarrow> nat list" where
  "inner_positions w = [2..<length w - 2]"

definition singles_middle_stated :: "string \<Rightarrow> float list \<Rightarrow> float list" where
  "singles_middle_stated w xs = fold (\<lambda>p. bump_at (letter_at w p)) (inner_positions w) xs"

subsection \<open>Cumulative arrays\<close>

text \<open>
  \<^verbatim>\<open>a <= b\<close> on two floats. An array is cumulative when its nonzero entries, in index order,
  do not decrease and the last of them lies within 0.9999 .. 1.0001, or when it has no nonzero
  entry. \<open>cumulative_stated\<close> asks the whole array, zeros included, not to decrease.
  \<open>zero_class_untouched\<close>: when the counts of an array sum to zero, no entry of it is
  greater than zero, so that no division is done, and the array is left as it is, all zero.
  \<open>sums_fit_int\<close>: the sum of the counts of an array, which the source holds in an \<^verbatim>\<open>int\<close>, lies
  within the range of that type, so that the additions of \<open>sum_counts\<close> are those of the source.
\<close>

definition fle :: "float \<Rightarrow> float \<Rightarrow> bool" where
  "fle a b = (\<not> is_nan a \<and> \<not> is_nan b \<and> valof a \<le> valof b)"

definition cumulative :: "float list \<Rightarrow> bool" where
  "cumulative xs =
     (filter fne0 xs = []
      \<or> (sorted_wrt fle (filter fne0 xs) \<and> within_tolerance (last (filter fne0 xs))))"

definition cumulative_stated :: "float list \<Rightarrow> bool" where
  "cumulative_stated xs =
     (list_all feq0 xs \<or> (sorted_wrt fle xs \<and> within_tolerance (last (filter fne0 xs))))"

definition zero_class_untouched :: "nat \<Rightarrow> float list \<Rightarrow> bool" where
  "zero_class_untouched n xs =
     (sum_counts n xs = 0
      \<longrightarrow> list_all (\<lambda>x. \<not> fgt0 x) xs \<and> list_all feq0 xs \<and> normalize_array n xs = xs)"

definition sums_fit_int :: "nat \<Rightarrow> float list \<Rightarrow> bool" where
  "sums_fit_int n xs = (0 \<le> sum_counts n xs \<and> sum_counts n xs < 2 ^ 31)"

definition normalize_arrays :: "nat \<Rightarrow> cdf \<Rightarrow> cdf" where
  "normalize_arrays n c =
     \<lparr> start = normalize_array n (start c), middle = normalize_array n (middle c),
       end_cdf = normalize_array n (end_cdf c) \<rparr>"

section \<open>Verification: the float model\<close>

text \<open>Rounding a magnitude that the format represents gives its own bit pattern.\<close>

lemma bitlen_0 [simp]: "bitlen 0 = 0"
  by (simp add: bitlen.simps)

lemma bitlen_pos: "0 < n \<Longrightarrow> bitlen n = Suc (bitlen (n div 2))"
  by (subst bitlen.simps) simp

lemma bitlen_eq: "2 ^ k \<le> n \<Longrightarrow> n < 2 ^ Suc k \<Longrightarrow> bitlen n = Suc k"
proof (induction k arbitrary: n)
  case 0
  then have "n = 1" by simp
  then show ?case by (simp add: bitlen_pos)
next
  case (Suc k)
  from Suc.prems have "0 < n"
    by (metis gr0I not_less_zero power_eq_0_iff zero_neq_numeral le_zero_eq)
  moreover have "2 ^ k \<le> n div 2" using Suc.prems by simp
  moreover have "n div 2 < 2 ^ Suc k" using Suc.prems by simp
  ultimately show ?case
    using Suc.IH [of "n div 2"] by (simp add: bitlen_pos)
qed

lemma bitlen_le: "n < 2 ^ k \<Longrightarrow> bitlen n \<le> k"
proof (induction k arbitrary: n)
  case 0
  then show ?case by simp
next
  case (Suc k)
  show ?case
  proof (cases "n = 0")
    case True
    then show ?thesis by simp
  next
    case False
    have "n div 2 < 2 ^ k" using Suc.prems by simp
    from Suc.IH [OF this] False show ?thesis by (simp add: bitlen_pos)
  qed
qed

lemma round_even_of_nat [simp]: "round_even (of_nat m) = int m"
  by (simp add: round_even_def)

lemma round_mag_subnormal:
  assumes "f < 2 ^ 23"
  shows "round_mag 23 8 (of_nat f / 2 ^ 149) = f"
proof -
  have n: "nat \<lfloor>(of_nat f / 2 ^ 149 :: rat) * 2 ^ 149\<rfloor> = f" by simp
  have "bitlen f \<le> 23" by (rule bitlen_le [OF assms])
  then have e: "min (2 ^ 8 - 2) (max 1 (bitlen f - 23)) = (1::nat)" by simp
  have m: "nat (round_even ((of_nat f / 2 ^ 149 :: rat) * 2 ^ 149 / 2 ^ (1 - 1))) = f" by simp
  have s: "fmt_shift 23 8 = 149" by (simp add: fmt_shift_def)
  show ?thesis
    unfolding round_mag_def Let_def s n e m using assms by simp
qed

lemma round_mag_normal:
  assumes e: "1 \<le> e" "e \<le> 254" and m: "2 ^ 23 \<le> m" "m < 2 ^ 24"
  shows "round_mag 23 8 (of_nat m * 2 ^ (e - 1) / 2 ^ 149) = (e - 1) * 2 ^ 23 + m"
proof -
  have "(of_nat m * 2 ^ (e - 1) / 2 ^ 149 :: rat) * 2 ^ 149 = of_nat (m * 2 ^ (e - 1))" by simp
  then have n: "nat \<lfloor>(of_nat m * 2 ^ (e - 1) / 2 ^ 149 :: rat) * 2 ^ 149\<rfloor> = m * 2 ^ (e - 1)"
    by (simp only: floor_of_nat nat_int)
  have lo: "2 ^ (23 + (e - 1)) \<le> m * 2 ^ (e - 1)"
    using m(1) by (simp add: power_add)
  have hi: "m * 2 ^ (e - 1) < 2 ^ Suc (23 + (e - 1))"
    using m(2) by (simp add: power_add)
  have "bitlen (m * 2 ^ (e - 1)) = Suc (23 + (e - 1))" by (rule bitlen_eq [OF lo hi])
  then have ee: "min (2 ^ 8 - 2) (max 1 (bitlen (m * 2 ^ (e - 1)) - 23)) = e"
    using e by simp
  have "(of_nat m * 2 ^ (e - 1) / 2 ^ 149 :: rat) * 2 ^ 149 / 2 ^ (e - 1) = of_nat m" by simp
  then have mm: "nat (round_even ((of_nat m * 2 ^ (e - 1) / 2 ^ 149 :: rat) * 2 ^ 149 / 2 ^ (e - 1))) = m"
    by (simp only: round_even_of_nat nat_int)
  have s: "fmt_shift 23 8 = 149" by (simp add: fmt_shift_def)
  have "(e - 1) * 2 ^ 23 + m < 255 * 2 ^ 23"
  proof -
    have "(e - 1) * 2 ^ 23 \<le> 253 * 2 ^ 23" using e by simp
    then show ?thesis using m(2) by simp
  qed
  then show ?thesis
    unfolding round_mag_def Let_def s n ee mm by simp
qed

lemma round_mag_mag_of:
  assumes "b < 255 * 2 ^ 23"
  shows "round_mag 23 8 (mag_of 23 8 b) = b"
proof -
  define e where "e = b div 2 ^ 23"
  define f where "f = b mod 2 ^ 23"
  have b: "b = e * 2 ^ 23 + f" by (simp add: e_def f_def)
  have e: "e < 255" using assms unfolding e_def by (simp add: less_mult_imp_div_less)
  then have em: "b div 2 ^ 23 mod 2 ^ 8 = e" by (simp add: e_def)
  have f: "f < 2 ^ 23" by (simp add: f_def)
  have s: "fmt_shift 23 8 = 149" by (simp add: fmt_shift_def)
  show ?thesis
  proof (cases "e = 0")
    case True
    then have m: "mag_of 23 8 b = of_nat f / 2 ^ 149"
      unfolding mag_of_def Let_def em s f_def by simp
    have "b = f" using b True by simp
    then show ?thesis unfolding m using round_mag_subnormal [OF f] by (simp only:)
  next
    case False
    then have m: "mag_of 23 8 b = of_nat (2 ^ 23 + f) * 2 ^ (e - 1) / 2 ^ 149"
      unfolding mag_of_def Let_def em s f_def by simp
    have "round_mag 23 8 (of_nat (2 ^ 23 + f) * 2 ^ (e - 1) / 2 ^ 149)
        = (e - 1) * 2 ^ 23 + (2 ^ 23 + f)"
      using False e f by (intro round_mag_normal) simp_all
    moreover have "(e - 1) * 2 ^ 23 + (2 ^ 23 + f) = b"
      using False b by (cases e) simp_all
    ultimately show ?thesis unfolding m by (simp only:)
  qed
qed

lemma unat_mk_float:
  assumes "b < 2 ^ 31"
  shows "unat (mk_float s b) = (if s then 2 ^ 31 else 0) + b"
proof -
  have u: "unat (of_nat n :: 32 word) = n" if "n < 2 ^ 32" for n
    using that by (simp add: unat_of_nat)
  have "(if s then 2 ^ 31 else 0) + b < (2 ^ 32 :: nat)" using assms by simp
  then show ?thesis
    unfolding mk_float_def by (rule u)
qed

lemma fbits_mk_float [simp]: "b < 2 ^ 31 \<Longrightarrow> fbits (mk_float s b) = b"
  by (simp add: fbits_def unat_mk_float)

lemma fsign_mk_float [simp]: "b < 2 ^ 31 \<Longrightarrow> fsign (mk_float s b) = s"
  by (simp add: fsign_def unat_mk_float)

lemma mk_float_fbits [simp]: "mk_float (fsign w) (fbits w) = w"
proof -
  have "unat w < 2 ^ 32" using unsigned_less [of w, where ?'a = nat] by simp
  then have "(if 2 ^ 31 \<le> unat w then 2 ^ 31 else 0) + unat w mod 2 ^ 31 = unat w"
    by (auto simp add: le_mod_geq)
  then show ?thesis
    unfolding mk_float_def fsign_def fbits_def by (simp only: of_nat_unat ucast_id)
qed

lemma fbits_less [simp]: "fbits w < 2 ^ 31"
  by (simp add: fbits_def)

lemma fround_mag_of: "b < 255 * 2 ^ 23 \<Longrightarrow> fround s (mag_of 23 8 b) = mk_float s b"
  by (simp add: fround_def round_mag_mag_of)

lemma fbits_0 [simp]: "fbits 0 = 0"
  by (simp add: fbits_def)

lemma mag_of_0 [simp]: "mag_of fb eb 0 = 0"
  by (simp add: mag_of_def)

lemma valof_0 [simp]: "valof 0 = 0"
  by (simp add: valof_def fmag_def)

text \<open>The floats 0.25, 0.5 and 0.75, used in the examples.\<close>

lemma float_quarter: "fbits 0x3E800000 = 1048576000" "\<not> fsign 0x3E800000"
  by (simp_all add: fbits_def fsign_def)
lemma float_half: "fbits 0x3F000000 = 1056964608" "\<not> fsign 0x3F000000"
  by (simp_all add: fbits_def fsign_def)
lemma float_3q: "fbits 0x3F400000 = 1061158912" "\<not> fsign 0x3F400000"
  by (simp_all add: fbits_def fsign_def)
lemma mag_quarter: "mag_of 23 8 1048576000 = 1 / 4" by (simp add: mag_of_def fmt_shift_def Let_def)
lemma mag_half: "mag_of 23 8 1056964608 = 1 / 2" by (simp add: mag_of_def fmt_shift_def Let_def)
lemma mag_3q: "mag_of 23 8 1061158912 = 3 / 4" by (simp add: mag_of_def fmt_shift_def Let_def)

lemma valof_quarter: "valof 0x3E800000 = 1 / 4" by (simp add: valof_def fmag_def float_quarter mag_quarter)
lemma valof_half: "valof 0x3F000000 = 1 / 2" by (simp add: valof_def fmag_def float_half mag_half)
lemma valof_3q: "valof 0x3F400000 = 3 / 4" by (simp add: valof_def fmag_def float_3q mag_3q)

lemma finite_q: "\<not> is_nan 0x3E800000" "\<not> is_inf 0x3E800000" 
  by (simp_all add: is_nan_def is_inf_def fexp_def float_quarter)
lemma finite_h: "\<not> is_nan 0x3F000000" "\<not> is_inf 0x3F000000" 
  by (simp_all add: is_nan_def is_inf_def fexp_def float_half)
lemma finite_0: "\<not> is_nan 0" "\<not> is_inf 0"
  by (simp_all add: is_nan_def is_inf_def fexp_def fbits_def)

lemma fround_quarter: "fround False (1 / 4) = 0x3E800000"
  using fround_mag_of [of 1048576000 False] by (simp add: mag_quarter mk_float_def)
lemma fround_half: "fround False (1 / 2) = 0x3F000000"
  using fround_mag_of [of 1056964608 False] by (simp add: mag_half mk_float_def)
lemma fround_3q: "fround False (3 / 4) = 0x3F400000"
  using fround_mag_of [of 1061158912 False] by (simp add: mag_3q mk_float_def)

lemma float_one: "fbits 0x3F800000 = 1065353216" "\<not> fsign 0x3F800000"
  by (simp_all add: fbits_def fsign_def)

lemma mag_one: "mag_of 23 8 1065353216 = 1"
  by (simp add: mag_of_def fmt_shift_def Let_def)

lemma valof_one: "valof 0x3F800000 = 1"
  by (simp add: valof_def fmag_def float_one mag_one)

lemma finite_one: "\<not> is_nan 0x3F800000" "\<not> is_inf 0x3F800000"
  by (simp_all add: is_nan_def is_inf_def fexp_def float_one)

lemma fround_one: "fround False 1 = 0x3F800000"
  using fround_mag_of [of 1065353216 False] by (simp add: mag_one mk_float_def)

lemma fadd_h_h: "fadd 0x3F000000 0x3F000000 = 0x3F800000"
  by (simp add: fadd_def finite_h valof_half fround_one)

lemma fadd_q_0: "fadd 0x3E800000 0 = 0x3E800000"
  by (simp add: fadd_def finite_q finite_0 valof_quarter fround_quarter)
lemma fadd_h_0: "fadd 0x3F000000 0 = 0x3F000000"
  by (simp add: fadd_def finite_h finite_0 valof_half fround_half)
lemma fadd_q_q: "fadd 0x3E800000 0x3E800000 = 0x3F000000"
  by (simp add: fadd_def finite_q valof_quarter fround_half)
lemma fadd_h_q: "fadd 0x3F000000 0x3E800000 = 0x3F400000"
  by (simp add: fadd_def finite_q finite_h valof_quarter valof_half fround_3q)
lemma fadd_q_h: "fadd 0x3E800000 0x3F000000 = 0x3F400000"
  by (simp add: fadd_def finite_q finite_h valof_quarter valof_half fround_3q)
lemma fadd_0_q: "fadd 0 0x3E800000 = 0x3E800000"
  by (simp add: fadd_def finite_q finite_0 valof_quarter fround_quarter)

lemma fne0_simps: "fne0 0x3E800000" "fne0 0x3F000000" "\<not> fne0 0" "feq0 0" "\<not> feq0 0x3E800000"
  "\<not> feq0 0x3F000000"
  by (simp_all add: fne0_def feq0_def finite_q finite_h finite_0 valof_quarter valof_half
      valof_def fmag_def fbits_def mag_of_def)

lemma tol_simps: "\<not> within_tolerance 0x3E800000" "\<not> within_tolerance 0x3F000000"
  "\<not> within_tolerance 0x3F400000" "within_tolerance 0x3F800000" "\<not> within_tolerance 0"
  by (simp_all add: within_tolerance_def valof_quarter valof_half valof_3q valof_one finite_one)

section \<open>Verification: the file format\<close>

lemma length_bytes_of_float [simp]: "length (bytes_of_float w) = 4"
  by (simp add: bytes_of_float_def Let_def)

lemma float_of_bytes_of_float [simp]: "float_of_bytes (bytes_of_float w @ rest) = w"
proof -
  define n where "n = unat w"
  have n: "n < 2 ^ 32" unfolding n_def using unsigned_less [of w, where ?'a = nat] by simp
  have d: "n div 16777216 < 256" using n by simp
  have d2: "n div 65536 = n div 256 div 256" and d3: "n div 16777216 = n div 256 div 256 div 256"
    by (simp_all add: div_mult2_eq [symmetric])
  have "n mod 256 + 256 * (n div 256 mod 256) + 65536 * (n div 65536 mod 256)
          + 16777216 * (n div 16777216) = n"
    unfolding d2 d3
    using div_mult_mod_eq [of n 256] div_mult_mod_eq [of "n div 256" 256]
      div_mult_mod_eq [of "n div 256 div 256" 256]
    by linarith
  then have "float_of_bytes (bytes_of_float w @ rest) = of_nat n"
    using d by (simp add: float_of_bytes_def bytes_of_float_def Let_def n_def [symmetric]
        unat_of_nat nth_append)
  then show ?thesis by (simp add: n_def)
qed

lemma length_floats_bytes [simp]: "length (floats_bytes xs) = 4 * length xs"
  by (induction xs) (simp_all add: floats_bytes_def)

lemma read_floats_bytes: "length xs = n \<Longrightarrow> read_floats n (floats_bytes xs @ rest) = xs"
proof (induction xs arbitrary: n)
  case Nil
  then show ?case by simp
next
  case (Cons x xs)
  then obtain m where n: "n = Suc m" and m: "length xs = m" by (cases n) auto
  have t: "take 4 (floats_bytes (x # xs) @ rest) = bytes_of_float x @ []"
    by (simp add: floats_bytes_def)
  have d: "drop 4 (floats_bytes (x # xs) @ rest) = floats_bytes xs @ rest"
    by (simp add: floats_bytes_def)
  show ?case
    unfolding n read_floats.simps t d
    using Cons.IH [OF m] by (simp only: float_of_bytes_of_float)
qed

lemma length_read_floats [simp]: "length (read_floats n bs) = n"
  by (induction n arbitrary: bs) simp_all

lemma length_cdf_bytes: "wf_cdf c \<Longrightarrow> length (cdf_bytes c) = sizeof_cdf"
  by (simp add: wf_cdf_def cdf_bytes_def sizeof_cdf_def)

lemma read_cdf_bytes:
  assumes "wf_cdf c"
  shows "read_cdf (cdf_bytes c @ rest) = c"
proof -
  have l: "length (start c) = NUM_LETTERS" "length (middle c) = NUM_LETTERS"
    "length (end_cdf c) = NUM_LETTERS"
    using assms by (simp_all add: wf_cdf_def)
  have a: "read_floats NUM_LETTERS (cdf_bytes c @ rest) = start c"
    using read_floats_bytes [OF l(1)] by (simp add: cdf_bytes_def)
  have b: "read_floats NUM_LETTERS (drop (4 * NUM_LETTERS) (cdf_bytes c @ rest)) = middle c"
    using read_floats_bytes [OF l(2)] by (simp add: cdf_bytes_def l)
  have c: "read_floats NUM_LETTERS (drop (8 * NUM_LETTERS) (cdf_bytes c @ rest)) = end_cdf c"
    using read_floats_bytes [OF l(3)] by (simp add: cdf_bytes_def l)
  show ?thesis
    unfolding read_cdf_def a b c by simp
qed

lemma wf_read_cdf [simp]: "wf_cdf (read_cdf bs)"
  by (simp add: wf_cdf_def read_cdf_def)

lemma read_cdfs_bytes:
  "length cs = n \<Longrightarrow> list_all wf_cdf cs \<Longrightarrow>
   read_cdfs n (concat (map cdf_bytes cs) @ rest) = cs"
proof (induction cs arbitrary: n)
  case Nil
  then show ?case by simp
next
  case (Cons c cs)
  then obtain m where n: "n = Suc m" and m: "length cs = m" by (cases n) auto
  from Cons.prems have wf: "wf_cdf c" and wfs: "list_all wf_cdf cs" by simp_all
  have t: "take sizeof_cdf (concat (map cdf_bytes (c # cs)) @ rest) = cdf_bytes c @ []"
    by (simp add: length_cdf_bytes [OF wf])
  have d: "drop sizeof_cdf (concat (map cdf_bytes (c # cs)) @ rest) = concat (map cdf_bytes cs) @ rest"
    by (simp add: length_cdf_bytes [OF wf])
  show ?case
    unfolding n read_cdfs.simps t d
    using Cons.IH [OF m wfs] by (simp only: read_cdf_bytes [OF wf])
qed

lemma length_cdfs_bytes:
  "list_all wf_cdf cs \<Longrightarrow> length (concat (map cdf_bytes cs)) = length cs * sizeof_cdf"
  by (induction cs) (simp_all add: length_cdf_bytes)

lemma length_read_cdfs [simp]: "length (read_cdfs n bs) = n"
  by (induction n arbitrary: bs) simp_all

lemma wf_read_cdfs [simp]: "list_all wf_cdf (read_cdfs n bs)"
  by (induction n arbitrary: bs) simp_all

lemma length_row_bytes: "wf_row row \<Longrightarrow> length (row_bytes row) = NUM_LETTERS * sizeof_cdf"
  by (simp add: wf_row_def row_bytes_def length_cdfs_bytes)

lemma read_rows_bytes:
  "length rows = n \<Longrightarrow> list_all wf_row rows \<Longrightarrow>
   read_rows n (concat (map row_bytes rows) @ rest) = rows"
proof (induction rows arbitrary: n)
  case Nil
  then show ?case by simp
next
  case (Cons r rows)
  then obtain m where n: "n = Suc m" and m: "length rows = m" by (cases n) auto
  from Cons.prems have wf: "wf_row r" and wfs: "list_all wf_row rows" by simp_all
  have t: "take (NUM_LETTERS * sizeof_cdf) (concat (map row_bytes (r # rows)) @ rest) = row_bytes r @ []"
    by (simp add: length_row_bytes [OF wf])
  have d: "drop (NUM_LETTERS * sizeof_cdf) (concat (map row_bytes (r # rows)) @ rest)
      = concat (map row_bytes rows) @ rest"
    by (simp add: length_row_bytes [OF wf])
  have r: "read_cdfs NUM_LETTERS (row_bytes r @ []) = r"
    unfolding row_bytes_def using wf by (intro read_cdfs_bytes) (simp_all add: wf_row_def)
  show ?case
    unfolding n read_rows.simps t d
    using Cons.IH [OF m wfs] by (simp only: r)
qed

lemma length_rows_bytes:
  "list_all wf_row rows \<Longrightarrow> length (concat (map row_bytes rows)) = length rows * (NUM_LETTERS * sizeof_cdf)"
  by (induction rows) (simp_all add: length_row_bytes)

lemma length_read_rows [simp]: "length (read_rows n bs) = n"
  by (induction n arbitrary: bs) simp_all

lemma wf_read_rows [simp]: "list_all wf_row (read_rows n bs)"
  by (induction n arbitrary: bs) (simp_all add: wf_row_def)

lemma length_ltrdata_bytes:
  "wf_ltrdata d \<Longrightarrow> length (ltrdata_bytes d) = sizeof_ltrdata"
  by (simp add: wf_ltrdata_def wf_row_def ltrdata_bytes_def row_bytes_def length_cdf_bytes length_cdfs_bytes
      length_rows_bytes sizeof_ltrdata_def algebra_simps)

lemma read_ltrdata_bytes:
  assumes "wf_ltrdata d"
  shows "read_ltrdata (ltrdata_bytes d) = d"
proof -
  from assms have wf: "wf_cdf (singles d)" "length (doubles d) = NUM_LETTERS"
    "list_all wf_cdf (doubles d)" "length (triples d) = NUM_LETTERS" "list_all wf_row (triples d)"
    by (simp_all add: wf_ltrdata_def wf_row_def)
  have a: "read_cdf (take sizeof_cdf (ltrdata_bytes d)) = singles d"
    using read_cdf_bytes [OF wf(1), of "[]"]
    by (simp add: ltrdata_bytes_def row_bytes_def length_cdf_bytes [OF wf(1)])
  have b: "read_cdfs NUM_LETTERS (drop sizeof_cdf (ltrdata_bytes d)) = doubles d"
    using read_cdfs_bytes [OF wf(2,3)]
    by (simp add: ltrdata_bytes_def row_bytes_def length_cdf_bytes [OF wf(1)])
  have c: "read_rows NUM_LETTERS (drop (sizeof_cdf + NUM_LETTERS * sizeof_cdf) (ltrdata_bytes d))
      = triples d"
    using read_rows_bytes [OF wf(4,5), of "[]"]
    by (simp add: ltrdata_bytes_def row_bytes_def length_cdf_bytes [OF wf(1)] length_cdfs_bytes [OF wf(3)] wf(2))
  show ?thesis
    unfolding read_ltrdata_def a b c by simp
qed

lemma wf_read_ltrdata [simp]: "wf_ltrdata (read_ltrdata bs)"
  by (simp add: wf_ltrdata_def wf_row_def read_ltrdata_def)

lemma length_LTR_MAGIC [simp]: "length LTR_MAGIC = 8"
  by (simp add: LTR_MAGIC_def)

lemma load_ltr_write_ltr:
  assumes "wf_ltrfile t" and "magic (header t) = LTR_MAGIC"
    and "unat (num_letters (header t)) = NUM_LETTERS"
  shows "load_ltr (Some (write_ltr t)) = Inr t"
proof -
  from assms(1) have wf: "wf_ltrdata (data t)" by (simp add: wf_ltrfile_def)
  have l: "length (ltrdata_bytes (data t)) = sizeof_ltrdata"
    by (rule length_ltrdata_bytes [OF wf])
  have "load_ltr (Some (write_ltr t))
      = Inr \<lparr> header = \<lparr> magic = magic (header t), num_letters = num_letters (header t) \<rparr>,
              data = read_ltrdata (ltrdata_bytes (data t)) \<rparr>"
    using assms(2,3) by (simp add: load_ltr_def write_ltr_def l nth_append)
  then show ?thesis
    by (simp add: read_ltrdata_bytes [OF wf])
qed

lemma load_ltr_Inr:
  assumes "load_ltr f = Inr t"
  shows "wf_ltrfile t \<and> magic (header t) = LTR_MAGIC \<and> unat (num_letters (header t)) = NUM_LETTERS"
  using assms
  by (auto simp add: load_ltr_def wf_ltrfile_def split: option.splits if_splits)

section \<open>Verification: detection of the corrupt arrays\<close>

lemma detect_loop_middle:
  "detect_loop n mid en i c AND 2 =
     (if \<exists>j. i \<le> j \<and> j < n \<and> in_tolerance (mid ! j) then 0 else c AND 2)"
proof (induction n mid en i c rule: detect_loop.induct)
  case (1 n mid en i c)
  show ?case
  proof (cases "i < n")
    case False
    then show ?thesis by (auto simp add: detect_loop.simps [of n mid en i c])
  next
    case True
    define c1 where "c1 = (if in_tolerance (mid ! i) then c AND NOT 2 else c)"
    define c2 where "c2 = (if in_tolerance (en ! i) then c1 AND NOT 1 else c1)"
    have step: "detect_loop n mid en i c = detect_loop n mid en (i + 1) c2"
      using True by (subst detect_loop.simps) (simp add: Let_def c1_def c2_def)
    have bit: "c2 AND 2 = (if in_tolerance (mid ! i) then 0 else c AND 2)"
      by (simp add: c1_def c2_def and.assoc)
    have split: "(\<exists>j. i \<le> j \<and> j < n \<and> in_tolerance (mid ! j)) \<longleftrightarrow>
        in_tolerance (mid ! i) \<or> (\<exists>j. i + 1 \<le> j \<and> j < n \<and> in_tolerance (mid ! j))"
    proof -
      have "\<And>j. i \<le> j \<longleftrightarrow> j = i \<or> i + 1 \<le> j" by arith
      then show ?thesis using True by auto
    qed
    have "detect_loop n mid en (i + 1) c2 AND 2 =
        (if \<exists>j. i + 1 \<le> j \<and> j < n \<and> in_tolerance (mid ! j) then 0 else c2 AND 2)"
      using "1.IH" [OF True c1_def c2_def] .
    then show ?thesis
      unfolding step split bit by auto
  qed
qed

lemma detect_loop_end:
  "detect_loop n mid en i c AND 1 =
     (if \<exists>j. i \<le> j \<and> j < n \<and> in_tolerance (en ! j) then 0 else c AND 1)"
proof (induction n mid en i c rule: detect_loop.induct)
  case (1 n mid en i c)
  show ?case
  proof (cases "i < n")
    case False
    then show ?thesis by (auto simp add: detect_loop.simps [of n mid en i c])
  next
    case True
    define c1 where "c1 = (if in_tolerance (mid ! i) then c AND NOT 2 else c)"
    define c2 where "c2 = (if in_tolerance (en ! i) then c1 AND NOT 1 else c1)"
    have step: "detect_loop n mid en i c = detect_loop n mid en (i + 1) c2"
      using True by (subst detect_loop.simps) (simp add: Let_def c1_def c2_def)
    have bit: "c2 AND 1 = (if in_tolerance (en ! i) then 0 else c AND 1)"
      by (simp add: c1_def c2_def and.assoc)
    have split: "(\<exists>j. i \<le> j \<and> j < n \<and> in_tolerance (en ! j)) \<longleftrightarrow>
        in_tolerance (en ! i) \<or> (\<exists>j. i + 1 \<le> j \<and> j < n \<and> in_tolerance (en ! j))"
    proof -
      have "\<And>j. i \<le> j \<longleftrightarrow> j = i \<or> i + 1 \<le> j" by arith
      then show ?thesis using True by auto
    qed
    have "detect_loop n mid en (i + 1) c2 AND 1 =
        (if \<exists>j. i + 1 \<le> j \<and> j < n \<and> in_tolerance (en ! j) then 0 else c2 AND 1)"
      using "1.IH" [OF True c1_def c2_def] .
    then show ?thesis
      unfolding step split bit by auto
  qed
qed

lemma mag_of_small:
  assumes "b div 2 ^ 23 mod 256 < 126"
  shows "mag_of 23 8 b < 1 / 2"
proof -
  define e where "e = b div 2 ^ 23 mod 256"
  define m where "m = (if e = 0 then 0 else 2 ^ 23) + b mod 2 ^ 23"
  have "b mod 2 ^ 23 < (2 ^ 23 :: nat)" by simp
  then have m: "m < 2 ^ 24"
    unfolding m_def by (cases "e = 0") simp_all
  have "e - 1 \<le> 124" using assms e_def by simp
  then have le: "(2::nat) ^ (e - 1) \<le> 2 ^ 124"
    by (rule power_increasing) simp
  have lt: "m * 2 ^ (e - 1) < 2 ^ 24 * 2 ^ 124"
    by (rule mult_less_le_imp_less [OF m le]) simp_all
  have "(of_nat (m * 2 ^ (e - 1)) :: rat) < of_nat (2 ^ 24 * 2 ^ 124)"
    using lt by (simp only: of_nat_less_iff)
  then have r: "(of_nat m * 2 ^ (e - 1) :: rat) < 2 ^ 148" by simp
  have "(of_nat m * 2 ^ (e - 1) :: rat) / 2 ^ 149 < 2 ^ 148 / 2 ^ 149"
    using r by (rule divide_strict_right_mono) simp
  then have "(of_nat m * 2 ^ (e - 1) :: rat) / 2 ^ 149 < 1 / 2" by simp
  then show ?thesis
    unfolding mag_of_def fmt_shift_def Let_def e_def m_def by simp
qed

lemma mag_of_grid:
  assumes "126 \<le> b div 2 ^ 23 mod 256"
  shows "mag_of 23 8 b = of_nat ((2 ^ 23 + b mod 2 ^ 23) * 2 ^ (b div 2 ^ 23 mod 256 - 126)) / 2 ^ 24"
proof -
  define e where "e = b div 2 ^ 23 mod 256"
  define A :: rat where "A = of_nat (2 ^ 23 + b mod 2 ^ 23)"
  have e: "126 \<le> e" using assms e_def by simp
  then have "e - 1 = (e - 126) + 125" by simp
  then have "(2::rat) ^ (e - 1) = 2 ^ ((e - 126) + 125)" by (rule arg_cong)
  then have p: "(2::rat) ^ (e - 1) = 2 ^ (e - 126) * 2 ^ 125"
    by (simp only: power_add)
  have "mag_of 23 8 b = A * 2 ^ (e - 1) / 2 ^ 149"
    using e unfolding mag_of_def fmt_shift_def Let_def e_def A_def by simp
  also have "\<dots> = A * 2 ^ (e - 126) / 2 ^ 24"
    unfolding p by simp
  finally show ?thesis unfolding e_def A_def by simp
qed

lemma mag_of_nonneg: "0 \<le> mag_of fb eb b"
  by (simp add: mag_of_def Let_def)

lemma grid_lower: "dbl_0_9999 \<le> of_nat k / 2 ^ 24 \<longleftrightarrow> 9999 / 10000 \<le> (of_nat k :: rat) / 2 ^ 24"
proof -
  have a: "dbl_0_9999 \<le> of_nat k / 2 ^ 24 \<longleftrightarrow> 16775539 \<le> k"
  proof
    assume "dbl_0_9999 \<le> of_nat k / 2 ^ 24"
    then have "(16775538 :: rat) < of_nat k" by (simp add: dbl_0_9999_def field_simps)
    then have "(of_nat 16775538 :: rat) < of_nat k" by simp
    then have "16775538 < k" by (simp only: of_nat_less_iff)
    then show "16775539 \<le> k" by simp
  next
    assume "16775539 \<le> k"
    then have "(of_nat 16775539 :: rat) \<le> of_nat k" by (simp only: of_nat_le_iff)
    then show "dbl_0_9999 \<le> of_nat k / 2 ^ 24" by (simp add: dbl_0_9999_def field_simps)
  qed
  have b: "9999 / 10000 \<le> (of_nat k :: rat) / 2 ^ 24 \<longleftrightarrow> 16775539 \<le> k"
  proof
    assume "9999 / 10000 \<le> (of_nat k :: rat) / 2 ^ 24"
    then have "(16775538 :: rat) < of_nat k" by (simp add: field_simps)
    then have "(of_nat 16775538 :: rat) < of_nat k" by simp
    then have "16775538 < k" by (simp only: of_nat_less_iff)
    then show "16775539 \<le> k" by simp
  next
    assume "16775539 \<le> k"
    then have "(of_nat 16775539 :: rat) \<le> of_nat k" by (simp only: of_nat_le_iff)
    then show "9999 / 10000 \<le> (of_nat k :: rat) / 2 ^ 24" by (simp add: field_simps)
  qed
  show ?thesis using a b by simp
qed

lemma grid_upper: "of_nat k / 2 ^ 24 \<le> dbl_1_0001 \<longleftrightarrow> (of_nat k :: rat) / 2 ^ 24 \<le> 10001 / 10000"
proof -
  have a: "of_nat k / 2 ^ 24 \<le> dbl_1_0001 \<longleftrightarrow> k \<le> 16778893"
  proof
    assume "of_nat k / 2 ^ 24 \<le> dbl_1_0001"
    then have "(of_nat k :: rat) < 16778894" by (simp add: dbl_1_0001_def field_simps)
    then have "(of_nat k :: rat) < of_nat 16778894" by simp
    then have "k < 16778894" by (simp only: of_nat_less_iff)
    then show "k \<le> 16778893" by simp
  next
    assume "k \<le> 16778893"
    then have "(of_nat k :: rat) \<le> of_nat 16778893" by (simp only: of_nat_le_iff)
    then show "of_nat k / 2 ^ 24 \<le> dbl_1_0001" by (simp add: dbl_1_0001_def field_simps)
  qed
  have b: "(of_nat k :: rat) / 2 ^ 24 \<le> 10001 / 10000 \<longleftrightarrow> k \<le> 16778893"
  proof
    assume "(of_nat k :: rat) / 2 ^ 24 \<le> 10001 / 10000"
    then have "(of_nat k :: rat) < 16778894" by (simp add: field_simps)
    then have "(of_nat k :: rat) < of_nat 16778894" by simp
    then have "k < 16778894" by (simp only: of_nat_less_iff)
    then show "k \<le> 16778893" by simp
  next
    assume "k \<le> 16778893"
    then have "(of_nat k :: rat) \<le> of_nat 16778893" by (simp only: of_nat_le_iff)
    then show "(of_nat k :: rat) / 2 ^ 24 \<le> 10001 / 10000" by (simp add: field_simps)
  qed
  show ?thesis using a b by simp
qed

lemma in_tolerance_iff: "in_tolerance x \<longleftrightarrow> within_tolerance x"
proof (cases "fsign x")
  case True
  have "valof x \<le> 0"
    using True mag_of_nonneg [of 23 8 "fbits x"] by (simp add: valof_def fmag_def)
  then show ?thesis by (simp add: in_tolerance_def within_tolerance_def dbl_0_9999_def)
next
  case False
  then have v: "valof x = mag_of 23 8 (fbits x)" by (simp add: valof_def fmag_def)
  show ?thesis
  proof (cases "fbits x div 2 ^ 23 mod 256 < 126")
    case True
    from mag_of_small [OF True] show ?thesis
      by (simp add: in_tolerance_def within_tolerance_def v dbl_0_9999_def)
  next
    case False
    then have "126 \<le> fbits x div 2 ^ 23 mod 256" by simp
    from mag_of_grid [OF this] show ?thesis
      by (simp only: in_tolerance_def within_tolerance_def v grid_lower grid_upper)
  qed
qed

lemma fix_loop_out:
  assumes "\<And>l u v w x. m \<noteq> Letter_line l u v w x"
  shows "m \<in> set (snd (snd (fix_loop n i tab a p c out))) \<longleftrightarrow> m \<in> set out"
proof (induction n i tab a p c out rule: fix_loop.induct)
  case (1 n i tab a p c out)
  show ?case
  proof (cases "i < n")
    case False
    then show ?thesis by (simp add: fix_loop.simps [of n i tab a p c out])
  next
    case True
    show ?thesis
      using True "1.IH" [OF True refl refl refl refl] assms
      by (subst fix_loop.simps) (simp add: Let_def)
  qed
qed

lemma fix_table_out:
  assumes "\<And>l u v w x. m \<noteq> Letter_line l u v w x" and "\<And>a. m \<noteq> Warning_accumulator a"
  shows "m \<in> set (snd (fix_table n announce tab)) \<longleftrightarrow> m = announce"
proof -
  obtain tab' acc out where f: "fix_loop n 0 tab 0 0 0 [announce] = (tab', acc, out)"
    by (cases "fix_loop n 0 tab 0 0 0 [announce]") auto
  have "m \<in> set out \<longleftrightarrow> m \<in> set [announce]"
    using fix_loop_out [of m n 0 tab 0 0 0 "[announce]"] assms(1) by (simp add: f)
  then show ?thesis
    using assms(2) by (auto simp add: fix_table_def f)
qed

lemma fix_ltr_Correcting_middle:
  "Correcting_middle \<in> set (snd (fix_ltr t)) \<longleftrightarrow> iscorrupt_of t AND 2 \<noteq> 0"
  by (simp add: fix_ltr_def Let_def split_beta fix_table_out)

lemma fix_ltr_Correcting_end:
  "Correcting_end \<in> set (snd (fix_ltr t)) \<longleftrightarrow> iscorrupt_of t AND 1 \<noteq> 0"
  by (simp add: fix_ltr_def Let_def split_beta fix_table_out)

lemma ex_index_iff: "length xs = n \<Longrightarrow> (\<exists>j. 0 \<le> j \<and> j < n \<and> P (xs ! j)) \<longleftrightarrow> (\<exists>x\<in>set xs. P x)"
  by (auto simp add: in_set_conv_nth) (use nth_mem in blast)

lemma iscorrupt_middle:
  assumes "length (middle (singles (data t))) = unat (num_letters (header t))"
  shows "iscorrupt_of t AND 2 \<noteq> 0 \<longleftrightarrow> (\<forall>x\<in>set (middle (singles (data t))). \<not> within_tolerance x)"
  unfolding iscorrupt_of_def detect_loop_middle ex_index_iff [OF assms] in_tolerance_iff
  by simp

lemma iscorrupt_end:
  assumes "length (end_cdf (singles (data t))) = unat (num_letters (header t))"
  shows "iscorrupt_of t AND 1 \<noteq> 0 \<longleftrightarrow> (\<forall>x\<in>set (end_cdf (singles (data t))). \<not> within_tolerance x)"
  unfolding iscorrupt_of_def detect_loop_end ex_index_iff [OF assms] in_tolerance_iff
  by simp

lemma fix_ltr_out_cong:
  assumes "num_letters (header t') = num_letters (header t)"
    and "middle (singles (data t')) = middle (singles (data t))"
    and "end_cdf (singles (data t')) = end_cdf (singles (data t))"
  shows "snd (fix_ltr t') = snd (fix_ltr t)"
  by (simp add: fix_ltr_def iscorrupt_of_def Let_def split_beta assms)

text \<open>
  Claim C4. For a table that \<open>load_ltr\<close> returned, \<open>fix_ltr\<close> takes \<open>singles.middle\<close> for corrupt
  (and announces its correction) exactly when no entry of the array has a value from 0.9999
  to 1.0001, and likewise, independently, \<open>singles.end\<close>. Nothing else of the table is examined:
  two tables with the same \<open>num_letters\<close>, \<open>singles.middle\<close> and \<open>singles.end\<close> get the same
  verdicts and the same output.
\<close>

theorem detection_by_tolerance:
  assumes "load_ltr f = Inr t"
  shows "(Correcting_middle \<in> set (snd (fix_ltr t))
            \<longleftrightarrow> (\<forall>x\<in>set (middle (singles (data t))). \<not> within_tolerance x))
       \<and> (Correcting_end \<in> set (snd (fix_ltr t))
            \<longleftrightarrow> (\<forall>x\<in>set (end_cdf (singles (data t))). \<not> within_tolerance x))
       \<and> (\<forall>t'. num_letters (header t') = num_letters (header t)
              \<and> middle (singles (data t')) = middle (singles (data t))
              \<and> end_cdf (singles (data t')) = end_cdf (singles (data t))
              \<longrightarrow> snd (fix_ltr t') = snd (fix_ltr t))"
proof -
  from load_ltr_Inr [OF assms] have n: "unat (num_letters (header t)) = NUM_LETTERS"
    and wf: "wf_cdf (singles (data t))"
    by (simp_all add: wf_ltrfile_def wf_ltrdata_def)
  from wf n have l: "length (middle (singles (data t))) = unat (num_letters (header t))"
    "length (end_cdf (singles (data t))) = unat (num_letters (header t))"
    by (simp_all add: wf_cdf_def)
  show ?thesis
    unfolding fix_ltr_Correcting_middle fix_ltr_Correcting_end
      iscorrupt_middle [OF l(1)] iscorrupt_end [OF l(2)]
    using fix_ltr_out_cong by blast
qed

lemma wf_zero_cdf [simp]: "wf_cdf zero_cdf"
  by (simp add: wf_cdf_def zero_cdf_def)

lemma wf_new_ltrfile: "wf_ltrfile new_ltrfile"
  by (simp add: wf_ltrfile_def wf_ltrdata_def wf_row_def new_ltrfile_def list_all_length)

lemma load_new_ltrfile: "load_ltr (Some (write_ltr new_ltrfile)) = Inr new_ltrfile"
  by (rule load_ltr_write_ltr [OF wf_new_ltrfile]) (simp_all add: new_ltrfile_def NUM_LETTERS_def)

theorem detection_by_tolerance_witness:
  "load_ltr (Some (write_ltr new_ltrfile)) = Inr new_ltrfile
   \<and> Correcting_middle \<in> set (snd (fix_ltr new_ltrfile))
   \<and> Correcting_end \<in> set (snd (fix_ltr new_ltrfile))"
proof -
  have m: "middle (singles (data new_ltrfile)) = replicate NUM_LETTERS 0"
    and e: "end_cdf (singles (data new_ltrfile)) = replicate NUM_LETTERS 0"
    by (simp_all add: new_ltrfile_def zero_cdf_def)
  have z: "\<forall>x\<in>set (replicate NUM_LETTERS (0 :: float)). \<not> within_tolerance x"
    by (simp add: tol_simps)
  note d = detection_by_tolerance [OF load_new_ltrfile]
  have "Correcting_middle \<in> set (snd (fix_ltr new_ltrfile))"
    using d z unfolding m by blast
  moreover have "Correcting_end \<in> set (snd (fix_ltr new_ltrfile))"
    using d z unfolding e by blast
  ultimately show ?thesis
    using load_new_ltrfile by blast
qed

section \<open>Verification: the repair\<close>

lemma fix_loop_repair_walk:
  assumes "i \<le> n" and "n = length tab"
  shows "fix_loop n i tab acc prev corr out =
           (take i tab @ fst (repair_walk acc corr (if i = 0 then None else Some prev) (drop i tab)),
            snd (repair_walk acc corr (if i = 0 then None else Some prev) (drop i tab)),
            snd (snd (fix_loop n i tab acc prev corr out)))"
  using assms
proof (induction n i tab acc prev corr out rule: fix_loop.induct)
  case (1 n i tab acc prev corr out)
  show ?case
  proof (cases "i < n")
    case False
    with "1.prems" have i: "i = length tab" by simp
    have base: "fix_loop n i tab acc prev corr out = (tab, acc, out)"
      using False by (subst fix_loop.simps) simp
    show ?thesis
      unfolding base using i by simp
  next
    case True
    define x where "x = tab ! i"
    define corr' where "corr' = (if fne0 x \<and> 0 < i \<and> feq0 prev then acc else corr)"
    define acc' where "acc' = (if fne0 x then fadd x corr' else acc)"
    define tab' where "tab' = (if fne0 x then tab[i := acc'] else tab)"
    define out' where "out' = out @ [Letter_line (letters ! i) x (tab' ! i) acc' corr']"
    have step: "fix_loop n i tab acc prev corr out = fix_loop n (Suc i) tab' acc' x corr' out'"
      using True
      by (subst fix_loop.simps) (simp add: Let_def x_def corr'_def acc'_def tab'_def out'_def)
    have len: "n = length tab'" using "1.prems" by (simp add: tab'_def)
    have ih: "fix_loop n (Suc i) tab' acc' x corr' out' =
           (take (Suc i) tab' @ fst (repair_walk acc' corr' (Some x) (drop (Suc i) tab')),
            snd (repair_walk acc' corr' (Some x) (drop (Suc i) tab')),
            snd (snd (fix_loop n (Suc i) tab' acc' x corr' out')))"
      using "1.IH" [OF True refl refl refl refl] True len
      unfolding out'_def tab'_def acc'_def corr'_def x_def by simp
    have i: "i < length tab" using True "1.prems" by simp
    have d: "drop i tab = x # drop (Suc i) tab"
      using i by (simp add: x_def Cons_nth_drop_Suc)
    have d': "drop (Suc i) tab' = drop (Suc i) tab"
      by (simp add: tab'_def)
    have t': "take (Suc i) tab' = take i tab @ [if fne0 x then acc' else x]"
      using i by (simp add: tab'_def x_def [symmetric] take_Suc_conv_app_nth)
    have w: "repair_walk acc corr (if i = 0 then None else Some prev) (x # drop (Suc i) tab) =
        ((if fne0 x then acc' else x) # fst (repair_walk acc' corr' (Some x) (drop (Suc i) tab)),
         snd (repair_walk acc' corr' (Some x) (drop (Suc i) tab)))"
      by (cases "fne0 x"; cases "i = 0") (simp_all add: Let_def split_beta acc'_def corr'_def)
    show ?thesis
      unfolding step
      by (subst ih) (simp only: d d' t' w, simp)
  qed
qed


lemma length_repair_walk [simp]: "length (fst (repair_walk acc off prev xs)) = length xs"
  by (induction xs arbitrary: acc off prev) (simp_all add: Let_def split_beta)

lemma repair_walk_zero_kept:
  "i < length xs \<Longrightarrow> \<not> fne0 (xs ! i) \<Longrightarrow> fst (repair_walk acc off prev xs) ! i = xs ! i"
proof (induction xs arbitrary: acc off prev i)
  case Nil
  then show ?case by simp
next
  case (Cons x xs)
  then show ?case by (cases i) (simp_all add: Let_def split_beta)
qed

lemma fne0_iff: "fne0 x \<longleftrightarrow> \<not> feq0 x"
  by (auto simp add: fne0_def feq0_def)

lemma off_tolerance_iff: "off_tolerance x \<longleftrightarrow> \<not> is_nan x \<and> \<not> within_tolerance x"
  unfolding in_tolerance_iff [symmetric] by (auto simp add: off_tolerance_def in_tolerance_def)

lemma fix_table_repair_walk:
  assumes "n = length tab" and "announce = Correcting_middle \<or> announce = Correcting_end"
  shows "fst (fix_table n announce tab) = fst (repair_walk 0 0 None tab)"
    and "Warning_accumulator a \<in> set (snd (fix_table n announce tab)) \<longleftrightarrow>
           a = snd (repair_walk 0 0 None tab) \<and> off_tolerance a"
proof -
  have f: "fix_loop n 0 tab 0 0 0 [announce] =
      (fst (repair_walk 0 0 None tab), snd (repair_walk 0 0 None tab),
       snd (snd (fix_loop n 0 tab 0 0 0 [announce])))"
    using fix_loop_repair_walk [of 0 n tab 0 0 0 "[announce]"] assms(1) by simp
  show "fst (fix_table n announce tab) = fst (repair_walk 0 0 None tab)"
    unfolding fix_table_def by (subst f) simp
  have "Warning_accumulator a \<notin> set (snd (snd (fix_loop n 0 tab 0 0 0 [announce])))"
    using fix_loop_out [of "Warning_accumulator a" n 0 tab 0 0 0 "[announce]"]
    using assms(2) by auto
  then show "Warning_accumulator a \<in> set (snd (fix_table n announce tab)) \<longleftrightarrow>
           a = snd (repair_walk 0 0 None tab) \<and> off_tolerance a"
    unfolding fix_table_def by (subst f) auto
qed

lemma fix_ltr_result:
  assumes "length (middle (singles (data t))) = unat (num_letters (header t))"
    and "length (end_cdf (singles (data t))) = unat (num_letters (header t))"
  shows "fst (fix_ltr t) =
     t\<lparr> data := (data t)\<lparr> singles := (singles (data t))\<lparr>
        middle := (if \<forall>x\<in>set (middle (singles (data t))). \<not> within_tolerance x
                   then fst (repair_walk 0 0 None (middle (singles (data t))))
                   else middle (singles (data t))),
        end_cdf := (if \<forall>x\<in>set (end_cdf (singles (data t))). \<not> within_tolerance x
                    then fst (repair_walk 0 0 None (end_cdf (singles (data t))))
                    else end_cdf (singles (data t))) \<rparr> \<rparr> \<rparr>"
  unfolding fix_ltr_def Let_def split_beta iscorrupt_middle [OF assms(1)] iscorrupt_end [OF assms(2)]
  by (simp add: fix_table_repair_walk(1) [OF assms(1) [symmetric]]
      fix_table_repair_walk(1) [OF assms(2) [symmetric]])

lemma fix_ltr_warning:
  assumes "length (middle (singles (data t))) = unat (num_letters (header t))"
    and "length (end_cdf (singles (data t))) = unat (num_letters (header t))"
  shows "Warning_accumulator a \<in> set (snd (fix_ltr t)) \<longleftrightarrow>
     off_tolerance a \<and>
     ((\<forall>x\<in>set (middle (singles (data t))). \<not> within_tolerance x)
        \<and> a = snd (repair_walk 0 0 None (middle (singles (data t))))
      \<or> (\<forall>x\<in>set (end_cdf (singles (data t))). \<not> within_tolerance x)
        \<and> a = snd (repair_walk 0 0 None (end_cdf (singles (data t)))))"
  unfolding fix_ltr_def Let_def split_beta iscorrupt_middle [OF assms(1)] iscorrupt_end [OF assms(2)]
  by (auto simp add: fix_table_repair_walk(2) [OF assms(1) [symmetric]]
      fix_table_repair_walk(2) [OF assms(2) [symmetric]])


lemma repair_walk_zeros: "repair_walk acc off prev (replicate k 0) = (replicate k 0, acc)"
  by (induction k arbitrary: prev) (simp_all add: fne0_simps)

lemma repair_stated_zeros: "repair_stated acc off prev (replicate k 0) = (replicate k 0, acc)"
  by (induction k arbitrary: prev) (simp_all add: fne0_simps)

lemma with_singles_simps [simp]:
  "header (with_singles mid en) = \<lparr> magic = LTR_MAGIC, num_letters = 28 \<rparr>"
  "middle (singles (data (with_singles mid en))) = mid"
  "end_cdf (singles (data (with_singles mid en))) = en"
  by (simp_all add: with_singles_def new_ltrfile_def NUM_LETTERS_def)

lemma load_with_singles:
  assumes "length mid = 28" and "length en = 28"
  shows "load_ltr (Some (write_ltr (with_singles mid en))) = Inr (with_singles mid en)"
proof (rule load_ltr_write_ltr)
  show "wf_ltrfile (with_singles mid en)"
    using assms
    by (simp add: wf_ltrfile_def wf_ltrdata_def wf_row_def with_singles_def new_ltrfile_def
        list_all_length wf_cdf_def zero_cdf_def NUM_LETTERS_def)
qed (simp_all add: NUM_LETTERS_def)

lemma length_examples [simp]:
  "length zeros = 28" "length climbing = 28" "length gapped = 28" "length gapped_half = 28"
  "length unit_first = 28"
  by (simp_all add: zeros_def climbing_def gapped_def gapped_half_def unit_first_def)

lemma walk_climbing: "repair_walk 0 0 None climbing = (climbing, 0x3F000000)"
  by (simp add: climbing_def fne0_simps fadd_q_0 fadd_h_0 repair_walk_zeros)

lemma stated_climbing:
  "repair_stated 0 0 None climbing = ([0x3E800000, 0x3F400000] @ replicate 26 0, 0x3F400000)"
  by (simp add: climbing_def fne0_simps fadd_q_0 fadd_h_0 fadd_0_q fadd_q_h repair_stated_zeros)

lemma walk_gapped:
  "repair_walk 0 0 None gapped = ([0x3E800000, 0, 0x3F000000] @ replicate 25 0, 0x3F000000)"
  by (simp add: gapped_def fne0_simps fadd_q_0 fadd_q_q repair_walk_zeros)

lemma walk_gapped_again:
  "repair_walk 0 0 None ([0x3E800000, 0, 0x3F000000] @ replicate 25 0)
     = ([0x3E800000, 0, 0x3F400000] @ replicate 25 0, 0x3F400000)"
  by (simp add: fne0_simps fadd_q_0 fadd_h_q repair_walk_zeros)

lemma walk_gapped_half:
  "repair_walk 0 0 None gapped_half = ([0x3F000000, 0, 0x3F800000] @ replicate 25 0, 0x3F800000)"
  by (simp add: gapped_half_def fne0_simps fadd_h_0 fadd_h_h repair_walk_zeros)

lemma no_tolerance_examples:
  "\<forall>x\<in>set zeros. \<not> within_tolerance x" "\<forall>x\<in>set climbing. \<not> within_tolerance x"
  "\<forall>x\<in>set gapped. \<not> within_tolerance x" "\<forall>x\<in>set gapped_half. \<not> within_tolerance x"
  "\<forall>x\<in>set ([0x3E800000, 0, 0x3F000000] @ replicate 25 0). \<not> within_tolerance x"
  by (simp_all add: zeros_def climbing_def gapped_def gapped_half_def tol_simps)

lemma off_tolerance_half: "off_tolerance 0x3F000000"
  by (simp add: off_tolerance_iff tol_simps finite_h)

text \<open>
  Claim C5, as amended. When \<open>singles.middle\<close> or \<open>singles.end\<close> of a loaded table is judged corrupt,
  \<open>fix_ltr\<close> replaces it by the result of \<open>repair_walk\<close>: a walk in increasing index order in
  which, at a nonzero raw value, the offset is first set to the accumulator if the previous
  raw value was zero (and the index is not 0), then the accumulator \<^emph>\<open>is set to\<close> the raw value
  plus the offset and stored at the index. Entries whose raw value is zero are left as they
  are, and nothing else of the table changes. A warning is printed exactly for a final
  accumulator that is a number outside 0.9999 .. 1.0001; \<open>fix_ltr\<close> returns a table in every
  case.
\<close>

theorem repair_sets_accumulator:
  assumes "load_ltr f = Inr t"
  shows "fst (fix_ltr t) =
     t\<lparr> data := (data t)\<lparr> singles := (singles (data t))\<lparr>
        middle := (if \<forall>x\<in>set (middle (singles (data t))). \<not> within_tolerance x
                   then fst (repair_walk 0 0 None (middle (singles (data t))))
                   else middle (singles (data t))),
        end_cdf := (if \<forall>x\<in>set (end_cdf (singles (data t))). \<not> within_tolerance x
                    then fst (repair_walk 0 0 None (end_cdf (singles (data t))))
                    else end_cdf (singles (data t))) \<rparr> \<rparr> \<rparr>
   \<and> (\<forall>i<NUM_LETTERS.
         (feq0 (middle (singles (data t)) ! i)
            \<longrightarrow> middle (singles (data (fst (fix_ltr t)))) ! i = middle (singles (data t)) ! i)
       \<and> (feq0 (end_cdf (singles (data t)) ! i)
            \<longrightarrow> end_cdf (singles (data (fst (fix_ltr t)))) ! i = end_cdf (singles (data t)) ! i))
   \<and> (\<forall>a. Warning_accumulator a \<in> set (snd (fix_ltr t)) \<longleftrightarrow>
         \<not> is_nan a \<and> \<not> within_tolerance a \<and>
         ((\<forall>x\<in>set (middle (singles (data t))). \<not> within_tolerance x)
            \<and> a = snd (repair_walk 0 0 None (middle (singles (data t))))
          \<or> (\<forall>x\<in>set (end_cdf (singles (data t))). \<not> within_tolerance x)
            \<and> a = snd (repair_walk 0 0 None (end_cdf (singles (data t))))))"
proof -
  from load_ltr_Inr [OF assms] have n: "unat (num_letters (header t)) = NUM_LETTERS"
    and wf: "wf_cdf (singles (data t))"
    by (simp_all add: wf_ltrfile_def wf_ltrdata_def)
  from wf n have l: "length (middle (singles (data t))) = unat (num_letters (header t))"
    "length (end_cdf (singles (data t))) = unat (num_letters (header t))"
    by (simp_all add: wf_cdf_def)
  note r = fix_ltr_result [OF l]
  have z: "\<forall>i<NUM_LETTERS.
         (feq0 (middle (singles (data t)) ! i)
            \<longrightarrow> middle (singles (data (fst (fix_ltr t)))) ! i = middle (singles (data t)) ! i)
       \<and> (feq0 (end_cdf (singles (data t)) ! i)
            \<longrightarrow> end_cdf (singles (data (fst (fix_ltr t)))) ! i = end_cdf (singles (data t)) ! i)"
    unfolding r using l n by (simp add: repair_walk_zero_kept fne0_iff)
  show ?thesis
    using r z fix_ltr_warning [OF l] unfolding off_tolerance_iff by blast
qed

text \<open>
  Claim C5 as stated has the raw value plus the offset \<^emph>\<open>added to\<close> the accumulator
  (\<open>repair_stated\<close>). On the array 0.25, 0.5, 0, ..., which is judged corrupt, the source leaves
  0.5 at index 1, where the walk as stated gives 0.75.
\<close>

theorem repair_adds_counterexample:
  "load_ltr (Some (write_ltr (with_singles climbing zeros))) = Inr (with_singles climbing zeros)
   \<and> Correcting_middle \<in> set (snd (fix_ltr (with_singles climbing zeros)))
   \<and> middle (singles (data (fst (fix_ltr (with_singles climbing zeros))))) ! 1 = 0x3F000000
   \<and> fst (repair_stated 0 0 None (middle (singles (data (with_singles climbing zeros))))) ! 1
       = 0x3F400000"
proof -
  have l: "length (middle (singles (data (with_singles climbing zeros))))
        = unat (num_letters (header (with_singles climbing zeros)))"
    "length (end_cdf (singles (data (with_singles climbing zeros))))
        = unat (num_letters (header (with_singles climbing zeros)))"
    by simp_all
  have "Correcting_middle \<in> set (snd (fix_ltr (with_singles climbing zeros)))"
    unfolding fix_ltr_Correcting_middle iscorrupt_middle [OF l(1)]
    by (simp add: no_tolerance_examples)
  moreover have "middle (singles (data (fst (fix_ltr (with_singles climbing zeros))))) ! 1 = 0x3F000000"
    unfolding fix_ltr_result [OF l]
    by (simp add: no_tolerance_examples walk_climbing) (simp add: climbing_def)
  moreover have "fst (repair_stated 0 0 None (middle (singles (data (with_singles climbing zeros))))) ! 1
       = 0x3F400000"
    by (simp add: stated_climbing)
  ultimately show ?thesis
    using load_with_singles [of climbing zeros] by simp
qed

theorem repair_sets_accumulator_witness:
  "load_ltr (Some (write_ltr (with_singles gapped zeros))) = Inr (with_singles gapped zeros)
   \<and> middle (singles (data (fst (fix_ltr (with_singles gapped zeros)))))
       = [0x3E800000, 0, 0x3F000000] @ replicate 25 0
   \<and> Warning_accumulator 0x3F000000 \<in> set (snd (fix_ltr (with_singles gapped zeros)))"
proof -
  have ld: "load_ltr (Some (write_ltr (with_singles gapped zeros))) = Inr (with_singles gapped zeros)"
    by (rule load_with_singles) simp_all
  note r = repair_sets_accumulator [OF ld]
  from r have "fst (fix_ltr (with_singles gapped zeros)) =
      (with_singles gapped zeros)\<lparr> data := (data (with_singles gapped zeros))\<lparr>
        singles := (singles (data (with_singles gapped zeros)))\<lparr>
          middle := fst (repair_walk 0 0 None gapped),
          end_cdf := fst (repair_walk 0 0 None zeros) \<rparr> \<rparr> \<rparr>"
    by (simp add: no_tolerance_examples)
  then have m: "middle (singles (data (fst (fix_ltr (with_singles gapped zeros)))))
       = [0x3E800000, 0, 0x3F000000] @ replicate 25 0"
    by (simp add: walk_gapped)
  from r have "Warning_accumulator 0x3F000000 \<in> set (snd (fix_ltr (with_singles gapped zeros))) \<longleftrightarrow>
         \<not> is_nan 0x3F000000 \<and> \<not> within_tolerance 0x3F000000 \<and>
         ((\<forall>x\<in>set gapped. \<not> within_tolerance x) \<and> 0x3F000000 = snd (repair_walk 0 0 None gapped)
          \<or> (\<forall>x\<in>set zeros. \<not> within_tolerance x) \<and> 0x3F000000 = snd (repair_walk 0 0 None zeros))"
    by simp
  then have "Warning_accumulator 0x3F000000 \<in> set (snd (fix_ltr (with_singles gapped zeros)))"
    by (simp add: no_tolerance_examples walk_gapped finite_h tol_simps)
  with ld m show ?thesis by simp
qed

section \<open>Verification: repairing twice\<close>

lemma fix_ltr_fixed:
  assumes "length (middle (singles (data t))) = unat (num_letters (header t))"
    and "length (end_cdf (singles (data t))) = unat (num_letters (header t))"
    and "\<exists>x\<in>set (middle (singles (data t))). within_tolerance x"
    and "\<exists>x\<in>set (end_cdf (singles (data t))). within_tolerance x"
  shows "fst (fix_ltr t) = t"
proof -
  have a: "\<not> (\<forall>x\<in>set (middle (singles (data t))). \<not> within_tolerance x)"
    and b: "\<not> (\<forall>x\<in>set (end_cdf (singles (data t))). \<not> within_tolerance x)"
    using assms(3,4) by blast+
  show ?thesis
    unfolding fix_ltr_result [OF assms(1,2)] if_not_P [OF a] if_not_P [OF b] by simp
qed

lemma fix_ltr_lengths:
  assumes "length (middle (singles (data t))) = unat (num_letters (header t))"
    and "length (end_cdf (singles (data t))) = unat (num_letters (header t))"
  shows "length (middle (singles (data (fst (fix_ltr t))))) = unat (num_letters (header (fst (fix_ltr t))))"
    and "length (end_cdf (singles (data (fst (fix_ltr t))))) = unat (num_letters (header (fst (fix_ltr t))))"
  unfolding fix_ltr_result [OF assms] using assms by simp_all


lemma tolerance_examples:
  "\<exists>x\<in>set ([0x3F000000, 0, 0x3F800000] @ replicate 25 0). within_tolerance x"
  "\<exists>x\<in>set unit_first. within_tolerance x"
  by (simp_all add: unit_first_def tol_simps)

section \<open>Verification: reading, cleaning and counting the names\<close>

lemma scan_tokens_spaces: "\<forall>c\<in>set ws. isspace c \<Longrightarrow> scan_tokens ws = []"
  by (subst scan_tokens.simps) simp

lemma scan_tokens_step:
  assumes ws: "\<forall>c\<in>set ws. isspace c"
    and t: "t \<noteq> []" "\<forall>c\<in>set t. \<not> isspace c" "length t \<le> 255"
    and rest: "rest = [] \<or> isspace (hd rest)"
  shows "scan_tokens (ws @ t @ rest) = t # scan_tokens rest"
proof -
  from t obtain c cs where c: "t = c # cs" by (cases t) auto
  have "\<not> isspace c" using t(2) c by simp
  then have d: "dropWhile isspace (ws @ t @ rest) = t @ rest"
    using ws c by (simp add: dropWhile_append3)
  have tw: "takeWhile (\<lambda>c. \<not> isspace c) (t @ rest) = t"
  proof (cases rest)
    case Nil
    then show ?thesis using t(2) by simp
  next
    case (Cons r rs)
    then have "isspace r" using rest by simp
    then show ?thesis using t(2) Cons by (simp add: takeWhile_tail)
  qed
  have tk: "take 255 t = t" using t(3) by simp
  show ?thesis
    by (subst scan_tokens.simps) (simp add: d tw tk Let_def t(1))
qed

lemma clean_chars_spec:
  "fst (clean_chars seen tok) = clean_spec tok
   \<and> (\<exists>bufs. length bufs = length (dropped_spec tok)
         \<and> snd (clean_chars seen tok) = map2 Invalid_character (dropped_spec tok) bufs)"
proof (induction tok arbitrary: seen)
  case Nil
  then show ?case by (simp add: clean_spec_def dropped_spec_def)
next
  case (Cons r rest)
  show ?case
  proof (cases "r = CHR ''#''")
    case True
    then show ?thesis by (simp add: clean_spec_def dropped_spec_def)
  next
    case False
    obtain bufs where b: "length bufs = length (dropped_spec rest)"
      "snd (clean_chars (seen @ [tolower r]) rest) = map2 Invalid_character (dropped_spec rest) bufs"
      and f: "fst (clean_chars (seen @ [tolower r]) rest) = clean_spec rest"
      using Cons.IH [of "seen @ [tolower r]"] by blast
    show ?thesis
    proof (cases "idx (tolower r) = - 1")
      case True
      have "snd (clean_chars seen (r # rest)) =
          map2 Invalid_character (dropped_spec (r # rest)) ((seen @ tolower r # rest) # bufs)"
        using False True b by (simp add: Let_def split_beta dropped_spec_def)
      moreover have "length ((seen @ tolower r # rest) # bufs) = length (dropped_spec (r # rest))"
        using False True b by (simp add: dropped_spec_def)
      moreover have "fst (clean_chars seen (r # rest)) = clean_spec (r # rest)"
        using False True f by (simp add: Let_def split_beta clean_spec_def)
      ultimately show ?thesis by blast
    next
      case valid: False
      have "snd (clean_chars seen (r # rest)) = map2 Invalid_character (dropped_spec (r # rest)) bufs"
        using False valid b by (simp add: Let_def split_beta dropped_spec_def)
      moreover have "length bufs = length (dropped_spec (r # rest))"
        using False valid b by (simp add: dropped_spec_def)
      moreover have "fst (clean_chars seen (r # rest)) = clean_spec (r # rest)"
        using False valid f by (simp add: Let_def split_beta clean_spec_def)
      ultimately show ?thesis by blast
    qed
  qed
qed

lemma c_string_id: "CHR 0x00 \<notin> set buf \<Longrightarrow> c_string buf = buf"
  by (auto simp add: c_string_def)

lemma middle_loop_fold:
  "p + 1 \<le> q - 2 \<Longrightarrow>
   middle_loop w q p d = Some (fold (bump_window At_middle w) [p + 1..<q - 2] d)"
proof (induction "q - 2 - (p + 1)" arbitrary: p d)
  case 0
  then have "p + 1 = q - 2" by simp
  then show ?case by (subst middle_loop.simps) simp
next
  case (Suc k)
  then have lt: "p + 1 < q - 2" and k: "k = q - 2 - (p + 1 + 1)" and le: "p + 1 + 1 \<le> q - 2"
    by simp_all
  have u: "[Suc p..<q - 2] = Suc p # [Suc (Suc p)..<q - 2]"
    using lt by (simp add: upt_conv_Cons)
  show ?case
    using lt Suc.hyps(1) [OF k le] by (subst middle_loop.simps) (simp add: u)
qed

lemma count_name_eq_spec:
  assumes "3 \<le> length w"
  shows "count_name w d = Some (count_name_spec w d)"
proof (cases "length w = 3")
  case True
  then show ?thesis by (simp add: count_name_def count_name_spec_def)
next
  case False
  with assms have "0 + 1 \<le> (length w - 1) - 2" by simp
  from middle_loop_fold [OF this]
  have "middle_loop w (length w - 1) 0 (bump_end w (length w - 1) (bump_window At_start w 0 d))
      = Some (fold (bump_window At_middle w) [0 + 1..<length w - 1 - 2]
          (bump_end w (length w - 1) (bump_window At_start w 0 d)))" .
  moreover have "length w - 1 - 2 = length w - 3" by simp
  moreover have "length w - 1 \<noteq> 2" using False assms by simp
  ultimately show ?thesis
    unfolding count_name_def count_name_spec_def Let_def by simp
qed


lemma build_loop_spec:
  assumes "CHR 0x00 \<notin> set tok"
  shows "\<exists>bufs. length bufs = length (dropped_spec tok)
     \<and> build_loop (tok # others) d out =
         (if length (clean_spec tok) < 3
          then build_loop others d
                 (out @ map2 Invalid_character (dropped_spec tok) bufs @ [Name_too_short (clean_spec tok)])
          else build_loop others (count_name_spec (clean_spec tok) d)
                 (out @ map2 Invalid_character (dropped_spec tok) bufs))"
proof -
  obtain bufs where b: "length bufs = length (dropped_spec tok)"
    "snd (clean_chars [] tok) = map2 Invalid_character (dropped_spec tok) bufs"
    and f: "fst (clean_chars [] tok) = clean_spec tok"
    using clean_chars_spec [of "[]" tok] by blast
  have c: "clean_chars [] (c_string tok) = (clean_spec tok, map2 Invalid_character (dropped_spec tok) bufs)"
    using b(2) f by (simp add: c_string_id [OF assms] prod_eq_iff)
  have "build_loop (tok # others) d out =
         (if length (clean_spec tok) < 3
          then build_loop others d
                 (out @ map2 Invalid_character (dropped_spec tok) bufs @ [Name_too_short (clean_spec tok)])
          else build_loop others (count_name_spec (clean_spec tok) d)
                 (out @ map2 Invalid_character (dropped_spec tok) bufs))"
    by (simp add: c count_name_eq_spec)
  with b(1) show ?thesis by blast
qed

lemma pieces_Nil [simp]: "pieces [] = []"
  by (subst pieces.simps) simp

lemma pieces_short: "tok \<noteq> [] \<Longrightarrow> length tok \<le> 255 \<Longrightarrow> pieces tok = [tok]"
  by (subst pieces.simps) simp

lemma pieces_long: "255 < length tok \<Longrightarrow> pieces tok = take 255 tok # pieces (drop 255 tok)"
  by (subst pieces.simps) auto

lemma concat_pieces: "concat (pieces tok) = tok"
proof (induction tok rule: pieces.induct)
  case (1 tok)
  show ?case
  proof (cases "tok = []")
    case True
    then show ?thesis by simp
  next
    case False
    from "1.IH" [OF False] show ?thesis
      using False by (subst pieces.simps) simp
  qed
qed

lemma pieces_bounded: "list_all (\<lambda>p. p \<noteq> [] \<and> length p \<le> 255) (pieces tok)"
proof (induction tok rule: pieces.induct)
  case (1 tok)
  show ?case
  proof (cases "tok = []")
    case True
    then show ?thesis by simp
  next
    case False
    from "1.IH" [OF False] show ?thesis
      using False by (subst pieces.simps) simp
  qed
qed

lemma scan_tokens_pieces:
  assumes ws: "\<forall>c\<in>set ws. isspace c"
    and t: "tok \<noteq> []" "\<forall>c\<in>set tok. \<not> isspace c"
    and rest: "rest = [] \<or> isspace (hd rest)"
  shows "scan_tokens (ws @ tok @ rest) = pieces tok @ scan_tokens rest"
  using ws t
proof (induction "length tok" arbitrary: tok ws rule: less_induct)
  case less
  note ws = less.prems(1) and t = less.prems(2,3)
  show ?case
  proof (cases "length tok \<le> 255")
    case True
    then show ?thesis
      using scan_tokens_step [OF ws t True rest] by (simp add: pieces_short [OF t(1) True])
  next
    case False
    then have long: "255 < length tok" by simp
    from t obtain c cs where c: "tok = c # cs" by (cases tok) auto
    have "\<not> isspace c" using t(2) c by simp
    then have d: "dropWhile isspace (ws @ tok @ rest) = tok @ rest"
      using ws c by (simp add: dropWhile_append3)
    have tw: "takeWhile (\<lambda>c. \<not> isspace c) (tok @ rest) = tok"
    proof (cases rest)
      case Nil
      then show ?thesis using t(2) by simp
    next
      case (Cons r rs)
      then have "isspace r" using rest by simp
      then show ?thesis using t(2) Cons by (simp add: takeWhile_tail)
    qed
    have l: "length (take 255 tok) = 255" using long by simp
    have dr: "drop 255 (tok @ rest) = drop 255 tok @ rest" using long by simp
    have ne: "drop 255 tok \<noteq> []" using long by simp
    have ns: "\<forall>c\<in>set (drop 255 tok). \<not> isspace c"
      using t(2) by (meson in_set_dropD)
    have sh: "length (drop 255 tok) < length tok" using long by simp
    have e: "\<forall>c\<in>set ([] :: string). isspace c" by simp
    have ih: "scan_tokens (drop 255 tok @ rest) = pieces (drop 255 tok) @ scan_tokens rest"
      using less.hyps [OF sh e ne ns] by simp
    have nn: "tok @ rest \<noteq> []" using t(1) by simp
    have "scan_tokens (ws @ tok @ rest) = take 255 tok # scan_tokens (drop 255 tok @ rest)"
      using long t(1) by (subst scan_tokens.simps) (simp add: d tw Let_def min_def)
    then show ?thesis by (simp add: ih pieces_long [OF long])
  qed
qed

lemma build_loop_c_string:
  "\<exists>bufs. length bufs = length (dropped_spec (c_string buf))
     \<and> build_loop (buf # others) d out =
         (if length (clean_spec (c_string buf)) < 3
          then build_loop others d
                 (out @ map2 Invalid_character (dropped_spec (c_string buf)) bufs
                      @ [Name_too_short (clean_spec (c_string buf))])
          else build_loop others (count_name_spec (clean_spec (c_string buf)) d)
                 (out @ map2 Invalid_character (dropped_spec (c_string buf)) bufs))"
proof -
  obtain bufs where b: "length bufs = length (dropped_spec (c_string buf))"
    "snd (clean_chars [] (c_string buf)) = map2 Invalid_character (dropped_spec (c_string buf)) bufs"
    and f: "fst (clean_chars [] (c_string buf)) = clean_spec (c_string buf)"
    using clean_chars_spec [of "[]" "c_string buf"] by blast
  have c: "clean_chars [] (c_string buf)
      = (clean_spec (c_string buf), map2 Invalid_character (dropped_spec (c_string buf)) bufs)"
    using b(2) f by (simp add: prod_eq_iff)
  have "build_loop (buf # others) d out =
         (if length (clean_spec (c_string buf)) < 3
          then build_loop others d
                 (out @ map2 Invalid_character (dropped_spec (c_string buf)) bufs
                      @ [Name_too_short (clean_spec (c_string buf))])
          else build_loop others (count_name_spec (clean_spec (c_string buf)) d)
                 (out @ map2 Invalid_character (dropped_spec (c_string buf)) bufs))"
    by (simp add: c count_name_eq_spec)
  with b(1) show ?thesis by blast
qed

text \<open>
  Claim C9, as amended. A token delimited by white space is read in consecutive pieces of at
  most 255 characters (\<open>pieces\<close>); a token of at most 255 characters is one piece. Every
  buffer read counts up to its first NUL. Of that the builder keeps what stands before the
  first \<open>#\<close>, lowercases it and drops every character outside the alphabet, with one message
  for each dropped character, in order; the kept characters are joined without a gap. A
  cleaned name shorter than 3 is skipped with a message and leaves the counts as they were;
  any other is counted.
\<close>

theorem tokens_cleaned:
  assumes "tok \<noteq> []" and "\<forall>c\<in>set tok. \<not> isspace c"
    and "\<forall>c\<in>set ws. isspace c" and "rest = [] \<or> isspace (hd rest)"
  shows "scan_tokens (ws @ tok @ rest) = pieces tok @ scan_tokens rest
     \<and> concat (pieces tok) = tok
     \<and> list_all (\<lambda>p. p \<noteq> [] \<and> length p \<le> 255) (pieces tok)
     \<and> (length tok \<le> 255 \<longrightarrow> pieces tok = [tok])
     \<and> (CHR 0x00 \<notin> set buf \<longrightarrow> c_string buf = buf)
     \<and> (\<exists>bufs. length bufs = length (dropped_spec (c_string buf))
          \<and> build_loop (buf # others) d out =
              (if length (clean_spec (c_string buf)) < 3
               then build_loop others d
                      (out @ map2 Invalid_character (dropped_spec (c_string buf)) bufs
                           @ [Name_too_short (clean_spec (c_string buf))])
               else build_loop others (count_name_spec (clean_spec (c_string buf)) d)
                      (out @ map2 Invalid_character (dropped_spec (c_string buf)) bufs)))"
  using scan_tokens_pieces [OF assms(3) assms(1) assms(2) assms(4)] concat_pieces [of tok]
    pieces_bounded [of tok] pieces_short [OF assms(1)] c_string_id [of buf]
    build_loop_c_string [of buf others d out]
  by blast

lemma char_of_97: "char_of (97::nat) = CHR ''a''"
proof -
  have "char_of (of_char (CHR ''a'') :: nat) = CHR ''a''" by (rule char_of_char)
  then show ?thesis by simp
qed

lemma char_facts:
  "isspace CHR '' ''" "\<not> isspace CHR ''a''" "\<not> isspace CHR ''b''" "\<not> isspace CHR ''c''"
  "\<not> isspace CHR ''d''" "\<not> isspace CHR ''A''" "\<not> isspace CHR ''n''" "\<not> isspace CHR ''#''"
  "\<not> isspace CHR ''x''"
  "tolower CHR ''A'' = CHR ''a''" "tolower CHR ''a'' = CHR ''a''" "tolower CHR ''n'' = CHR ''n''"
  "tolower CHR ''b'' = CHR ''b''" "tolower CHR ''c'' = CHR ''c''" "tolower CHR ''d'' = CHR ''d''"
  "idx CHR ''a'' = 0" "idx CHR ''n'' = 13" "idx CHR ''b'' = 1" "idx CHR ''c'' = 2" "idx CHR ''d'' = 3"
  by (simp_all add: isspace_def tolower_def idx_def char_of_97)

lemma clean_Anna: "clean_spec ''Anna#x'' = ''anna''" "dropped_spec ''Anna#x'' = []"
  by (simp_all add: clean_spec_def dropped_spec_def char_facts)

lemma nul_facts:
  "\<not> isspace (CHR 0x00)" "tolower (CHR 0x00) = CHR 0x00" "idx (CHR 0x00) = - 1"
  by (simp_all add: isspace_def tolower_def idx_def)

lemma pieces_300:
  "pieces (replicate 300 CHR ''a'') = [replicate 255 CHR ''a'', replicate 45 CHR ''a'']"
proof -
  have "pieces (replicate 300 CHR ''a'')
      = take 255 (replicate 300 CHR ''a'') # pieces (drop 255 (replicate 300 CHR ''a''))"
    by (rule pieces_long) simp
  moreover have "pieces (replicate 45 CHR ''a'') = [replicate 45 CHR ''a'']"
    by (rule pieces_short) simp_all
  ultimately show ?thesis by simp
qed

theorem tokens_cleaned_witness:
  "scan_tokens ('' Anna#x '') = [''Anna#x'']
   \<and> build_loop [''Anna#x''] (data new_ltrfile) [] = Some (count_name_spec ''anna'' (data new_ltrfile), [])
   \<and> scan_tokens (replicate 300 CHR ''a'') = [replicate 255 CHR ''a'', replicate 45 CHR ''a'']"
proof -
  have a: "''Anna#x'' \<noteq> []" "\<forall>c\<in>set ''Anna#x''. \<not> isspace c" "\<forall>c\<in>set '' ''. isspace c"
    "'' '' = [] \<or> isspace (hd '' '')"
    by (simp_all add: char_facts)
  have z: "CHR 0x00 \<notin> set ''Anna#x''" by simp
  have len: "length ''Anna#x'' \<le> 255" by simp
  note T = tokens_cleaned [OF a, of "''Anna#x''" "[]" "data new_ltrfile" "[]"]
  have s: "scan_tokens ('' '' @ ''Anna#x'' @ '' '') = pieces ''Anna#x'' @ scan_tokens '' ''"
    using T by blast
  have p: "pieces ''Anna#x'' = [''Anna#x'']"
    using T len by blast
  have c: "c_string ''Anna#x'' = ''Anna#x''"
    using T z by blast
  have b: "\<exists>bufs. length bufs = length (dropped_spec (c_string ''Anna#x''))
          \<and> build_loop [''Anna#x''] (data new_ltrfile) [] =
              (if length (clean_spec (c_string ''Anna#x'')) < 3
               then build_loop [] (data new_ltrfile)
                      ([] @ map2 Invalid_character (dropped_spec (c_string ''Anna#x'')) bufs
                           @ [Name_too_short (clean_spec (c_string ''Anna#x''))])
               else build_loop [] (count_name_spec (clean_spec (c_string ''Anna#x'')) (data new_ltrfile))
                      ([] @ map2 Invalid_character (dropped_spec (c_string ''Anna#x'')) bufs))"
    using T by blast
  have s': "scan_tokens ('' Anna#x '') = [''Anna#x'']"
    using s unfolding p by (simp add: scan_tokens_spaces char_facts)
  have b': "build_loop [''Anna#x''] (data new_ltrfile) [] = Some (count_name_spec ''anna'' (data new_ltrfile), [])"
    using b unfolding c by (simp only: clean_Anna) simp
  have l: "replicate 300 CHR ''a'' \<noteq> []" "\<forall>c\<in>set (replicate 300 CHR ''a''). \<not> isspace c"
    "\<forall>c\<in>set ([] :: string). isspace c" "([] :: string) = [] \<or> isspace (hd [])"
    by (simp_all add: char_facts)
  from tokens_cleaned [OF l, of "[]" "[]" "data new_ltrfile" "[]"]
  have "scan_tokens ([] @ replicate 300 CHR ''a'' @ []) = pieces (replicate 300 CHR ''a'') @ scan_tokens []"
    by blast
  then have l': "scan_tokens (replicate 300 CHR ''a'') = [replicate 255 CHR ''a'', replicate 45 CHR ''a'']"
    by (simp add: pieces_300 scan_tokens_spaces)
  show ?thesis using s' b' l' by blast
qed

lemma clean_replicate_a: "clean_spec (replicate n CHR ''a'') = replicate n CHR ''a''"
  by (induction n) (simp_all add: clean_spec_def char_facts)

lemma dropped_replicate_a: "dropped_spec (replicate n CHR ''a'') = []"
  by (induction n) (simp_all add: dropped_spec_def char_facts)

lemma clean_bcd: "clean_spec ''bcd'' = ''bcd''" "dropped_spec ''bcd'' = []"
  by (simp_all add: clean_spec_def dropped_spec_def char_facts)

text \<open>
  Claim C9 as stated speaks of every white-space delimited token. A token of 258 letters is
  read by \<^verbatim>\<open>%255s\<close> in two pieces, and its last three letters are counted as a name of their
  own. A token with a NUL byte is counted up to that byte only, without a message: of
  \<open>abc\<close>, NUL, \<open>bcd\<close> the name \<open>abc\<close> is counted, where the claim has \<open>abcbcd\<close>.
\<close>

theorem long_token_counterexample:
  "scan_tokens (replicate 255 CHR ''a'' @ ''bcd'') = [replicate 255 CHR ''a'', ''bcd'']
   \<and> build_loop (scan_tokens (replicate 255 CHR ''a'' @ ''bcd'')) (data new_ltrfile) []
       = Some (count_name_spec ''bcd'' (count_name_spec (replicate 255 CHR ''a'') (data new_ltrfile)), [])
   \<and> scan_tokens (''abc'' @ [CHR 0x00] @ ''bcd'') = [''abc'' @ [CHR 0x00] @ ''bcd'']
   \<and> clean_spec (''abc'' @ [CHR 0x00] @ ''bcd'') = ''abcbcd''
   \<and> build_loop (scan_tokens (''abc'' @ [CHR 0x00] @ ''bcd'')) (data new_ltrfile) []
       = Some (count_name_spec ''abc'' (data new_ltrfile), [])"
proof -
  have d: "dropWhile isspace (replicate 255 CHR ''a'' @ ''bcd'') = replicate 255 CHR ''a'' @ ''bcd''"
    by (simp add: dropWhile_append char_facts)
  have t: "takeWhile (\<lambda>c. \<not> isspace c) (replicate 255 CHR ''a'' @ ''bcd'') = replicate 255 CHR ''a'' @ ''bcd''"
    by (simp add: takeWhile_eq_all_conv char_facts)
  have s1: "scan_tokens (replicate 255 CHR ''a'' @ ''bcd'') = replicate 255 CHR ''a'' # scan_tokens ''bcd''"
    by (subst scan_tokens.simps) (simp add: d t Let_def)
  have s2: "scan_tokens ''bcd'' = [''bcd'']"
    using scan_tokens_step [of "[]" "''bcd''" "[]"] by (simp add: char_facts scan_tokens_spaces)
  have z: "CHR 0x00 \<notin> set (replicate 255 CHR ''a'')" "CHR 0x00 \<notin> set ''bcd''" by simp_all
  have b1: "build_loop [replicate 255 CHR ''a'', ''bcd''] (data new_ltrfile) []
      = build_loop [''bcd''] (count_name_spec (replicate 255 CHR ''a'') (data new_ltrfile)) []"
    using build_loop_spec [OF z(1), of "[''bcd'']" "data new_ltrfile" "[]"]
    by (simp only: clean_replicate_a dropped_replicate_a) simp
  have b2: "build_loop [''bcd''] d [] = Some (count_name_spec ''bcd'' d, [])" for d
    using build_loop_spec [OF z(2), of "[]" d "[]"]
    by (simp only: clean_bcd) simp
  have s3: "scan_tokens (''abc'' @ [CHR 0x00] @ ''bcd'') = [''abc'' @ [CHR 0x00] @ ''bcd'']"
    using scan_tokens_step [of "[]" "''abc'' @ [CHR 0x00] @ ''bcd''" "[]"]
    by (simp add: char_facts nul_facts scan_tokens_spaces)
  have cs: "c_string (''abc'' @ [CHR 0x00] @ ''bcd'') = ''abc''"
    by (simp add: c_string_def)
  have ca: "clean_spec ''abc'' = ''abc''" "dropped_spec ''abc'' = []"
    by (simp_all add: clean_spec_def dropped_spec_def char_facts)
  have b3: "build_loop [''abc'' @ [CHR 0x00] @ ''bcd''] (data new_ltrfile) []
      = Some (count_name_spec ''abc'' (data new_ltrfile), [])"
    using build_loop_c_string [of "''abc'' @ [CHR 0x00] @ ''bcd''" "[]" "data new_ltrfile" "[]"]
    by (simp only: cs ca) simp
  have c3: "clean_spec (''abc'' @ [CHR 0x00] @ ''bcd'') = ''abcbcd''"
    by (simp add: clean_spec_def char_facts nul_facts)
  show ?thesis
    unfolding s1 s2 b1 b2 s3 b3 c3 by simp
qed

lemma map_update_same: "f y = f (xs ! i) \<Longrightarrow> map f (xs[i := y]) = map f xs"
  by (cases "i < length xs") (simp_all add: map_update list_update_same_conv list_update_beyond)

lemma middle_bump_cdf: "pos \<noteq> At_middle \<Longrightarrow> middle (bump_cdf pos k c) = middle c"
  by (cases pos) simp_all

lemma middles_bump_single:
  "pos \<noteq> At_middle \<Longrightarrow> middle (singles (bump_single pos i d)) = middle (singles d)"
  "doubles (bump_single pos i d) = doubles d" "triples (bump_single pos i d) = triples d"
  by (simp_all add: bump_single_def middle_bump_cdf)

lemma middles_bump_double:
  "pos \<noteq> At_middle \<Longrightarrow> map middle (doubles (bump_double pos i j d)) = map middle (doubles d)"
  "singles (bump_double pos i j d) = singles d" "triples (bump_double pos i j d) = triples d"
  by (simp_all add: bump_double_def middle_bump_cdf map_update_same)

lemma middles_bump_triple:
  "pos \<noteq> At_middle \<Longrightarrow>
     map (map middle) (triples (bump_triple pos i j k d)) = map (map middle) (triples d)"
  "singles (bump_triple pos i j k d) = singles d" "doubles (bump_triple pos i j k d) = doubles d"
  by (simp_all add: bump_triple_def middle_bump_cdf map_update_same)

lemma middles_start_end:
  "middle (singles (bump_end w q (bump_window At_start w 0 d))) = middle (singles d)"
  "map middle (doubles (bump_end w q (bump_window At_start w 0 d))) = map middle (doubles d)"
  "map (map middle) (triples (bump_end w q (bump_window At_start w 0 d))) = map (map middle) (triples d)"
  by (simp_all add: bump_end_def bump_window_def middles_bump_single middles_bump_double
      middles_bump_triple)

section \<open>Verification: the built table and the round trip\<close>

lemma list_all_update:
  assumes "list_all P xs" and "j < length xs \<Longrightarrow> P y"
  shows "list_all P (xs[j := y])"
proof (cases "j < length xs")
  case True
  with assms show ?thesis
    by (auto simp add: list_all_length nth_list_update)
next
  case False
  with assms(1) show ?thesis by (simp add: list_update_beyond)
qed

lemma fold_update_invariant:
  assumes "\<And>x. P x \<Longrightarrow> P (f x)" and "list_all P xs"
  shows "list_all P (fold (\<lambda>j r. r[j := f (r ! j)]) js xs)
     \<and> length (fold (\<lambda>j r. r[j := f (r ! j)]) js xs) = length xs"
  using assms(2)
proof (induction js arbitrary: xs)
  case Nil
  then show ?case by simp
next
  case (Cons j js)
  have "list_all P (xs[j := f (xs ! j)])"
    using Cons.prems assms(1) by (intro list_all_update) (simp_all add: list_all_length)
  from Cons.IH [OF this] show ?case by simp
qed

lemma wf_bump_cdf [simp]: "wf_cdf (bump_cdf pos k c) = wf_cdf c"
  by (cases pos) (simp_all add: wf_cdf_def)

lemma wf_bump_single [simp]: "wf_ltrdata d \<Longrightarrow> wf_ltrdata (bump_single pos i d)"
  by (simp add: wf_ltrdata_def bump_single_def)

lemma wf_row_nth: "wf_row row \<Longrightarrow> j < length row \<Longrightarrow> wf_cdf (row ! j)"
  by (simp add: wf_row_def list_all_length)

lemma wf_row_update: "wf_row row \<Longrightarrow> (j < length row \<Longrightarrow> wf_cdf y) \<Longrightarrow> wf_row (row[j := y])"
  by (simp add: wf_row_def list_all_update)

lemma wf_row_bump: "wf_row row \<Longrightarrow> wf_row (row[j := bump_cdf pos k (row ! j)])"
  by (rule wf_row_update) (simp_all add: wf_row_nth)

lemma wf_bump_double [simp]: "wf_ltrdata d \<Longrightarrow> wf_ltrdata (bump_double pos i j d)"
  by (simp add: wf_ltrdata_def bump_double_def wf_row_bump)

lemma wf_bump_triple [simp]:
  assumes "wf_ltrdata d"
  shows "wf_ltrdata (bump_triple pos i j k d)"
proof -
  from assms have t: "list_all wf_row (triples d)" by (simp add: wf_ltrdata_def)
  have "list_all wf_row ((triples d)[i := (triples d ! i)[j := bump_cdf pos k (triples d ! i ! j)]])"
    using t by (intro list_all_update) (simp_all add: list_all_length wf_row_bump)
  then show ?thesis
    using assms by (simp add: wf_ltrdata_def bump_triple_def)
qed

lemma wf_bump_window [simp]: "wf_ltrdata d \<Longrightarrow> wf_ltrdata (bump_window pos w p d)"
  by (simp add: bump_window_def)

lemma wf_bump_end [simp]: "wf_ltrdata d \<Longrightarrow> wf_ltrdata (bump_end w q d)"
  by (simp add: bump_end_def)

lemma wf_fold_bump_window: "wf_ltrdata d \<Longrightarrow> wf_ltrdata (fold (bump_window pos w) ps d)"
  by (induction ps arbitrary: d) simp_all

lemma wf_count_name_spec [simp]: "wf_ltrdata d \<Longrightarrow> wf_ltrdata (count_name_spec w d)"
  by (simp add: count_name_spec_def wf_fold_bump_window)

lemma build_loop_total:
  "wf_ltrdata d \<Longrightarrow> \<exists>d' out'. build_loop bufs d out = Some (d', out') \<and> wf_ltrdata d'"
proof (induction bufs arbitrary: d out)
  case Nil
  then show ?case by simp
next
  case (Cons buf bufs)
  obtain buf2 msgs where c: "clean_chars [] (c_string buf) = (buf2, msgs)"
    by (cases "clean_chars [] (c_string buf)") auto
  show ?case
  proof (cases "length buf2 < 3")
    case True
    then show ?thesis using Cons.IH [OF Cons.prems] by (simp add: c)
  next
    case False
    then have "count_name buf2 d = Some (count_name_spec buf2 d)"
      by (intro count_name_eq_spec) simp
    then show ?thesis
      using False Cons.IH [OF wf_count_name_spec [OF Cons.prems]] by (simp add: c)
  qed
qed

lemma length_normalize_step [simp]: "length (fst (normalize_step count i (xs, acc))) = length xs"
  by (simp add: normalize_step_def Let_def)

lemma wf_normalize_loop:
  "wf_cdf c \<Longrightarrow> wf_cdf (normalize_loop n i sc mc ec c s m e)"
proof (induction n i sc mc ec c s m e rule: normalize_loop.induct)
  case (1 n i sc mc ec c s m e)
  show ?case
  proof (cases "i < n")
    case False
    then show ?thesis using "1.prems" by (subst normalize_loop.simps) simp
  next
    case True
    obtain st s' where a: "normalize_step sc i (start c, s) = (st, s')"
      by (cases "normalize_step sc i (start c, s)") auto
    obtain en e' where b: "normalize_step ec i (end_cdf c, e) = (en, e')"
      by (cases "normalize_step ec i (end_cdf c, e)") auto
    obtain mi m' where d: "normalize_step mc i (middle c, m) = (mi, m')"
      by (cases "normalize_step mc i (middle c, m)") auto
    have "length st = length (start c)" "length en = length (end_cdf c)" "length mi = length (middle c)"
      using length_normalize_step [of sc i "start c" s] length_normalize_step [of ec i "end_cdf c" e]
        length_normalize_step [of mc i "middle c" m] by (simp_all add: a b d)
    then have "wf_cdf \<lparr> start = st, middle = mi, end_cdf = en \<rparr>"
      using "1.prems" by (simp add: wf_cdf_def)
    from "1.IH" [OF True a [symmetric] b [symmetric] d [symmetric] this]
    show ?thesis using True by (subst normalize_loop.simps) (simp add: a b d)
  qed
qed

lemma wf_normalize_cdf [simp]: "wf_cdf c \<Longrightarrow> wf_cdf (normalize_cdf n c)"
  by (simp add: normalize_cdf_def wf_normalize_loop)

lemma wf_normalize_row: "wf_row row \<Longrightarrow> wf_row (normalize_row n row)"
  using fold_update_invariant [of wf_cdf "normalize_cdf n" row "[0..<n]"]
  by (simp add: wf_row_def normalize_row_def)

lemma wf_normalize_ltrdata: "wf_ltrdata d \<Longrightarrow> wf_ltrdata (normalize_ltrdata n d)"
  using fold_update_invariant [of wf_row "normalize_row n" "triples d" "[0..<n]"]
  by (simp add: wf_ltrdata_def normalize_ltrdata_def wf_normalize_row)

lemma build_table_total:
  "\<exists>t out. build_table inp = Some (t, out) \<and> wf_ltrfile t \<and> magic (header t) = LTR_MAGIC
      \<and> unat (num_letters (header t)) = NUM_LETTERS"
proof -
  have wf: "wf_ltrdata (data new_ltrfile)"
    using wf_new_ltrfile by (simp add: wf_ltrfile_def)
  from build_loop_total [OF wf, of "scan_tokens inp" "[]"]
  obtain d out where b: "build_loop (scan_tokens inp) (data new_ltrfile) [] = Some (d, out)"
    and d: "wf_ltrdata d" by blast
  define t where "t = new_ltrfile\<lparr> data := normalize_ltrdata (unat (num_letters (header new_ltrfile))) d \<rparr>"
  have w: "wf_ltrfile t"
    using wf_normalize_ltrdata [OF d] by (simp add: t_def wf_ltrfile_def new_ltrfile_def)
  have h: "magic (header t) = LTR_MAGIC" "unat (num_letters (header t)) = NUM_LETTERS"
    by (simp_all add: t_def new_ltrfile_def NUM_LETTERS_def)
  have "build_table inp = Some (t, out)"
    by (simp add: build_table_def b t_def)
  with w h show ?thesis by blast
qed

text \<open>
  Claim C1. \<open>build_ltr\<close> returns a table for every input (when the file can be created), the
  file it writes is \<open>write_ltr\<close> of that table, and loading the file gives the table back, bit
  for bit; and a table that \<open>load_ltr\<close> returned is returned again when its \<open>write_ltr\<close> is
  loaded.
\<close>

theorem load_write_roundtrip:
  "(\<forall>inp. \<exists>t bytes out. build_ltr True inp = Some (Inr (t, bytes), out)
       \<and> bytes = write_ltr t \<and> load_ltr (Some bytes) = Inr t)
   \<and> (\<forall>f t. load_ltr f = Inr t \<longrightarrow> load_ltr (Some (write_ltr t)) = Inr t)"
proof (intro conjI allI impI)
  fix inp
  from build_table_total [of inp] obtain t out where
    "build_table inp = Some (t, out)" "load_ltr (Some (write_ltr t)) = Inr t"
    using load_ltr_write_ltr by blast
  then show "\<exists>t bytes out. build_ltr True inp = Some (Inr (t, bytes), out)
       \<and> bytes = write_ltr t \<and> load_ltr (Some bytes) = Inr t"
    by (simp add: build_ltr_def)
next
  fix f t
  assume "load_ltr f = Inr t"
  from load_ltr_Inr [OF this] show "load_ltr (Some (write_ltr t)) = Inr t"
    using load_ltr_write_ltr by blast
qed

theorem load_write_roundtrip_witness:
  "(\<exists>t bytes out. build_ltr True ''ann #two anna B3o'' = Some (Inr (t, bytes), out)
       \<and> bytes = write_ltr t \<and> load_ltr (Some bytes) = Inr t)
   \<and> load_ltr (Some (write_ltr (with_singles gapped zeros))) = Inr (with_singles gapped zeros)"
proof -
  have l: "load_ltr (Some (write_ltr (with_singles gapped zeros))) = Inr (with_singles gapped zeros)"
    by (rule load_with_singles) simp_all
  show ?thesis
    using load_write_roundtrip l by blast
qed

section \<open>Verification: the sampler\<close>

lemma scan_loop_find:
  "i \<le> n \<Longrightarrow> scan_loop n prob tab i =
     (case find (\<lambda>j. fless prob (tab ! j)) [i..<n] of Some j \<Rightarrow> j | None \<Rightarrow> n)"
proof (induction n prob tab i rule: scan_loop.induct)
  case (1 n prob tab i)
  show ?case
  proof (cases "i < n")
    case False
    with "1.prems" show ?thesis by (subst scan_loop.simps) simp
  next
    case True
    then have u: "[i..<n] = i # [i + 1..<n]" by (simp add: upt_conv_Cons)
    show ?thesis
    proof (cases "fless prob (tab ! i)")
      case yes: True
      then show ?thesis using True by (subst scan_loop.simps) (simp add: u)
    next
      case no: False
      from "1.IH" [OF True no] True no show ?thesis
        by (subst scan_loop.simps) (simp add: u)
    qed
  qed
qed

lemma scan_loop_qualifying:
  "scan_loop n prob tab 0 = (case qualifying_index n prob tab of Some j \<Rightarrow> j | None \<Rightarrow> n)"
  using scan_loop_find [of 0 n prob tab] by (simp add: qualifying_index_def)

lemma qualifying_index_less: "qualifying_index n prob tab = Some j \<Longrightarrow> j < n"
  by (auto simp add: qualifying_index_def find_Some_iff)

lemma scan_loop_less_iff:
  "scan_loop n prob tab 0 < n \<longleftrightarrow> qualifying_index n prob tab \<noteq> None"
  by (auto simp add: scan_loop_qualifying dest: qualifying_index_less split: option.splits)

lemma step_extending:
  "step ltr (Extending name attempts) (ra # rb # rs) =
     Some (case (if rb mod 12 \<le> length name
                 then qualifying_index (unat (num_letters (header ltr))) (nrand ra)
                        (end_cdf (name_context ltr name))
                 else None) of
             Some i \<Rightarrow>
               if length name + 1 < 256 then Return (capitalize (name @ [letters ! i])) else Overflow
           | None \<Rightarrow> continue_extending ltr name attempts (nrand ra), rs)"
proof -
  define n where "n = unat (num_letters (header ltr))"
  define qe where "qe = qualifying_index n (nrand ra) (end_cdf (name_context ltr name))"
  define qm where "qm = qualifying_index n (nrand ra) (middle (name_context ltr name))"
  have e: "scan_loop n (nrand ra) (end_cdf (name_context ltr name)) 0
      = (case qe of Some j \<Rightarrow> j | None \<Rightarrow> n)"
    and m: "scan_loop n (nrand ra) (middle (name_context ltr name)) 0
      = (case qm of Some j \<Rightarrow> j | None \<Rightarrow> n)"
    by (simp_all add: scan_loop_qualifying qe_def qm_def)
  have le: "qe = Some j \<Longrightarrow> j < n" and lm: "qm = Some j \<Longrightarrow> j < n" for j
    by (auto simp add: qe_def qm_def dest: qualifying_index_less)
  show ?thesis
    unfolding step.simps Let_def continue_extending_def n_def [symmetric] e m
      qe_def [symmetric] qm_def [symmetric]
    using le lm by (cases qe; cases qm) auto
qed


lemma length_capitalize [simp]: "name \<noteq> [] \<Longrightarrow> length (capitalize name) = length name"
  by (cases name) (simp_all add: capitalize_def)

lemma step_goto_length:
  "place_length pl 3 \<Longrightarrow> step ltr pl rs = Some (Goto pl', rs') \<Longrightarrow> place_length pl' 3"
  by (induction ltr pl rs rule: step.induct) (auto simp add: Let_def split: if_splits)

lemma step_return_length:
  "place_length pl 3 \<Longrightarrow> step ltr pl rs = Some (Return w, rs') \<Longrightarrow>
     \<exists>name attempts x. pl = Extending name attempts \<and> w = capitalize (name @ [x])"
  by (induction ltr pl rs rule: step.induct) (auto simp add: Let_def split: if_splits)

lemma run_name_length:
  "place_length pl 3 \<Longrightarrow> run ltr pl rs = Some (Name w) \<Longrightarrow> 4 \<le> length w"
proof (induction ltr pl rs rule: run.induct)
  case (1 ltr pl rs)
  show ?case
  proof (cases "step ltr pl rs")
    case None
    with "1.prems"(2) show ?thesis by (subst (asm) run.simps) simp
  next
    case (Some res)
    obtain a rs' where res: "res = (a, rs')" by (cases res)
    show ?thesis
    proof (cases a)
      case (Goto pl')
      have r: "run ltr pl rs = run ltr pl' rs'"
        by (subst run.simps) (simp add: Some res Goto)
      have "place_length pl' 3"
        using step_goto_length [OF "1.prems"(1)] Some res Goto by simp
      from "1.IH" [OF Some res [symmetric] Goto this] "1.prems"(2) r show ?thesis by simp
    next
      case (Return v)
      have "run ltr pl rs = Some (Name v)"
        by (subst run.simps) (simp add: Some res Return)
      with "1.prems"(2) have vw: "v = w" by simp
      obtain name attempts x where pl: "pl = Extending name attempts" and v: "v = capitalize (name @ [x])"
        using step_return_length [OF "1.prems"(1)] Some res Return by blast
      have "3 \<le> length name" using "1.prems"(1) pl by simp
      then have "4 \<le> length (capitalize (name @ [x]))" by simp
      then show ?thesis using v vw by simp
    next
      case Overflow
      have "run ltr pl rs = Some Buffer_overflow"
        by (subst run.simps) (simp add: Some res Overflow)
      with "1.prems"(2) show ?thesis by simp
    qed
  qed
qed

text \<open>
  Claim C10. Every name \<open>random_name\<close> returns has at least 4 symbols, never exactly 3: the
  loop is entered with 3 symbols, every place reached keeps at least 3 in the loop, and the
  one step that returns appends a symbol to the word of the loop.
\<close>

theorem random_name_at_least_four:
  "(random_name ltr draws = Some (Name w) \<longrightarrow> 4 \<le> length w \<and> length w \<noteq> 3)
   \<and> (place_length pl 3 \<and> step ltr pl rs = Some (Goto pl', rs') \<longrightarrow> place_length pl' 3)
   \<and> (place_length pl 3 \<and> step ltr pl rs = Some (Return v, rs')
        \<longrightarrow> (\<exists>name attempts x. pl = Extending name attempts \<and> 3 \<le> length name
              \<and> v = capitalize (name @ [x])))"
proof -
  have "random_name ltr draws = Some (Name w) \<longrightarrow> 4 \<le> length w \<and> length w \<noteq> 3"
    using run_name_length [of Again ltr draws w] by (auto simp add: random_name_def)
  moreover have "place_length pl 3 \<and> step ltr pl rs = Some (Return v, rs')
        \<longrightarrow> (\<exists>name attempts x. pl = Extending name attempts \<and> 3 \<le> length name
              \<and> v = capitalize (name @ [x]))"
    using step_return_length [of pl ltr rs v rs'] by fastforce
  ultimately show ?thesis
    using step_goto_length [of pl ltr rs pl' rs'] by blast
qed


lemma round_mag_0 [simp]: "round_mag 23 8 0 = 0"
  using round_mag_subnormal [of 0] by simp

lemma float_of_int_0 [simp]: "float_of_int 0 = 0"
  by (simp add: float_of_int_def fround_def mk_float_def)

lemma round_mag_RAND_MAX: "round_mag 23 8 2147483647 = 1325400064"
proof -
  have n: "nat \<lfloor>(2147483647 :: rat) * 2 ^ 149\<rfloor> = 2147483647 * 2 ^ 149"
  proof -
    have "(2147483647 :: rat) * 2 ^ 149 = of_nat (2147483647 * 2 ^ 149)" by simp
    then show ?thesis by (simp only: floor_of_nat nat_int)
  qed
  have "bitlen (2147483647 * 2 ^ 149) = Suc 179"
    by (rule bitlen_eq) simp_all
  then have e: "min (2 ^ 8 - 2) (max 1 (bitlen (2147483647 * 2 ^ 149) - 23)) = (157 :: nat)"
    by simp
  have q: "(2147483647 :: rat) * 2 ^ 149 / 2 ^ (157 - 1) = 2147483647 / 128"
    by simp
  have "\<lfloor>(2147483647 :: rat) / 128\<rfloor> = 16777215" by (simp add: floor_divide_of_int_eq [symmetric] floor_eq_iff)
  then have m: "nat (round_even ((2147483647 :: rat) * 2 ^ 149 / 2 ^ (157 - 1))) = 16777216"
    unfolding q round_even_def Let_def by simp
  have s: "fmt_shift 23 8 = 149" by (simp add: fmt_shift_def)
  show ?thesis
    unfolding round_mag_def Let_def s n e m by simp
qed

lemma float_of_int_RAND_MAX: "float_of_int RAND_MAX = 0x4F000000"
  by (simp add: float_of_int_def RAND_MAX_def fround_def round_mag_RAND_MAX mk_float_def)

lemma float_4F: "fbits 0x4F000000 = 1325400064" "\<not> fsign 0x4F000000"
  by (simp_all add: fbits_def fsign_def)

lemma mag_4F: "mag_of 23 8 1325400064 = 2147483648"
  by (simp add: mag_of_def fmt_shift_def Let_def)

lemma fsign_0 [simp]: "\<not> fsign 0"
  by (simp add: fsign_def)

lemma nrand_0: "nrand 0 = 0"
  by (simp add: nrand_def float_of_int_RAND_MAX fdiv_def finite_0 is_nan_def is_inf_def fexp_def
      float_4F fmag_def mag_4F fround_def mk_float_def)

lemma fless_0_one: "fless 0 0x3F800000" "\<not> fless 0 0"
  by (simp_all add: fless_def finite_0 finite_one valof_one)


lemma header_uniform_table [simp]: "unat (num_letters (header (uniform_table c))) = 28"
  by (simp add: uniform_table_def new_ltrfile_def NUM_LETTERS_def)

lemma idx_a: "nat (idx CHR ''a'') = 0"
  by (simp add: idx_def)

lemma context_uniform_table:
  "name_context (uniform_table c) ''aaa'' = c" "name_context (uniform_table c) ''aaaa'' = c"
  "name_context (uniform_table c) ''aa'' = c"
  by (simp_all add: name_context_def uniform_table_def idx_a)

lemma singles_uniform_table [simp]:
  "singles (data (uniform_table c)) = c" "doubles (data (uniform_table c)) ! 0 = c"
  by (simp_all add: uniform_table_def)

lemma upt_28: "[0..<28] = 0 # [1..<28]"
  by (simp add: upt_conv_Cons)

lemma qualifying_unit_first: "qualifying_index 28 0 unit_first = Some 0"
  by (simp add: qualifying_index_def upt_28 unit_first_def fless_0_one)

lemma qualifying_zeros: "qualifying_index 28 0 zeros = None"
  by (simp add: qualifying_index_def find_None_iff zeros_def fless_0_one)

lemma scan_unit_first: "scan_loop 28 0 unit_first 0 = 0"
  by (simp add: scan_loop_qualifying qualifying_unit_first)

lemma letters_0: "letters ! 0 = CHR ''a''"
  by (simp add: letters_def)

lemma char_of_65: "char_of (65::nat) = CHR ''A''"
proof -
  have "char_of (of_char (CHR ''A'') :: nat) = CHR ''A''" by (rule char_of_char)
  then show ?thesis by simp
qed

lemma capitalize_aaaa: "capitalize ''aaaa'' = ''Aaaa''"
  by (simp add: capitalize_def toupper_def char_of_65)

lemma run_unit_table: "random_name (uniform_table unit_cdf) [0, 0, 0, 0, 0] = Some (Name ''Aaaa'')"
proof -
  have a: "step (uniform_table unit_cdf) Again [0, 0, 0, 0, 0] = Some (Goto (Second ''a''), [0, 0, 0, 0])"
    by (simp add: nrand_0 unit_cdf_def scan_unit_first letters_0)
  have b: "step (uniform_table unit_cdf) (Second ''a'') [0, 0, 0, 0] = Some (Goto (Third ''aa''), [0, 0, 0])"
    by (simp add: nrand_0 unit_cdf_def scan_unit_first letters_0 idx_a)
  have c: "step (uniform_table unit_cdf) (Third ''aa'') [0, 0, 0] = Some (Goto (Extending ''aaa'' 0), [0, 0])"
    by (simp add: nrand_0 unit_cdf_def scan_unit_first letters_0 context_uniform_table)
  have d: "step (uniform_table unit_cdf) (Extending ''aaa'' 0) [0, 0] = Some (Return ''Aaaa'', [])"
    by (simp add: nrand_0 unit_cdf_def scan_unit_first letters_0 context_uniform_table capitalize_aaaa)
  have e4: "run (uniform_table unit_cdf) (Extending ''aaa'' 0) [0, 0] = Some (Name ''Aaaa'')"
    by (subst run.simps) (simp only: d, simp)
  have e3: "run (uniform_table unit_cdf) (Third ''aa'') [0, 0, 0] = Some (Name ''Aaaa'')"
    by (subst run.simps) (simp only: c, simp add: e4)
  have e2: "run (uniform_table unit_cdf) (Second ''a'') [0, 0, 0, 0] = Some (Name ''Aaaa'')"
    by (subst run.simps) (simp only: b, simp add: e3)
  show ?thesis
    unfolding random_name_def by (subst run.simps) (simp only: a, simp add: e2)
qed

theorem random_name_at_least_four_witness:
  "random_name (uniform_table unit_cdf) [0, 0, 0, 0, 0] = Some (Name ''Aaaa'')
   \<and> 4 \<le> length ''Aaaa''
   \<and> place_length (Third ''aa'') 3
   \<and> step (uniform_table unit_cdf) (Third ''aa'') [0, 0, 0] = Some (Goto (Extending ''aaa'' 0), [0, 0])
   \<and> place_length (Extending ''aaa'' 0) 3"
proof -
  have c: "step (uniform_table unit_cdf) (Third ''aa'') [0, 0, 0] = Some (Goto (Extending ''aaa'' 0), [0, 0])"
    by (simp add: nrand_0 unit_cdf_def scan_unit_first letters_0 context_uniform_table)
  have p: "place_length (Third ''aa'') 3" by simp
  note t = random_name_at_least_four [where ltr = "uniform_table unit_cdf"
      and draws = "[0, 0, 0, 0, 0]" and w = "''Aaaa''" and pl = "Third ''aa''" and rs = "[0, 0, 0]"
      and pl' = "Extending ''aaa'' 0" and rs' = "[0, 0]"]
  have "4 \<le> length ''Aaaa''" using t run_unit_table by blast
  moreover have "place_length (Extending ''aaa'' 0) 3" using t c p by blast
  ultimately show ?thesis using run_unit_table c p by blast
qed

section \<open>Verification: rounding to float\<close>

lemma round_even_near: "\<bar>of_int (round_even q) - q\<bar> \<le> 1 / 2"
proof -
  have "of_int \<lfloor>q\<rfloor> \<le> q" "q < of_int \<lfloor>q\<rfloor> + 1" by linarith+
  then show ?thesis unfolding round_even_def Let_def by auto
qed

lemma round_even_ge: "of_int k \<le> q \<Longrightarrow> k \<le> round_even q"
proof -
  assume "of_int k \<le> q"
  then have "k \<le> \<lfloor>q\<rfloor>" by (simp add: le_floor_iff)
  then show ?thesis unfolding round_even_def Let_def by auto
qed

lemma round_even_le: "q \<le> of_int k \<Longrightarrow> round_even q \<le> k"
proof -
  assume q: "q \<le> of_int k"
  have f: "of_int \<lfloor>q\<rfloor> \<le> q" by linarith
  show ?thesis
  proof (cases "q = of_int \<lfloor>q\<rfloor>")
    case True
    then have "q - of_int \<lfloor>q\<rfloor> = 0" by simp
    moreover have "\<lfloor>q\<rfloor> \<le> k" using q by (simp add: floor_le_iff)
    ultimately show ?thesis unfolding round_even_def Let_def by simp
  next
    case False
    then have "of_int \<lfloor>q\<rfloor> < q" using f by linarith
    then have "of_int \<lfloor>q\<rfloor> < (of_int k :: rat)" using q by linarith
    then have "\<lfloor>q\<rfloor> < k" by simp
    then show ?thesis unfolding round_even_def Let_def by auto
  qed
qed

lemma binade_exists:
  fixes x :: rat
  assumes "2 ^ fb \<le> x" "x < 2 ^ (fb + E)"
  shows "\<exists>e. 1 \<le> e \<and> e \<le> E \<and> 2 ^ (fb + (e - 1)) \<le> x \<and> x < 2 ^ (fb + e)"
  using assms
proof (induction E)
  case 0
  then show ?case by simp
next
  case (Suc E)
  show ?case
  proof (cases "x < 2 ^ (fb + E)")
    case True
    from Suc.IH [OF Suc.prems(1) True] obtain e where
      "1 \<le> e" "e \<le> E" "2 ^ (fb + (e - 1)) \<le> x" "x < 2 ^ (fb + e)" by blast
    then show ?thesis by (intro exI [of _ e]) simp
  next
    case False
    then have "2 ^ (fb + (Suc E - 1)) \<le> x" by simp
    then show ?thesis using Suc.prems(2) by (intro exI [of _ "Suc E"]) simp
  qed
qed

lemma pow_le_nat: "(2 ^ k :: int) \<le> z \<Longrightarrow> 2 ^ k \<le> nat z"
proof -
  assume a: "(2 ^ k :: int) \<le> z"
  have "(0::int) \<le> 2 ^ k" by simp
  then have "0 \<le> z" using a by linarith
  then show ?thesis using a by (simp add: le_nat_iff)
qed

lemma nat_le_pow: "z \<le> (2 ^ k :: int) \<Longrightarrow> nat z \<le> 2 ^ k"
  by (simp add: nat_le_iff)

lemma round_mag_binade:
  fixes a :: rat
  assumes e: "1 \<le> e" "e + 2 < 2 ^ eb"
    and lo: "2 ^ (fb + (e - 1)) \<le> a * 2 ^ fmt_shift fb eb"
    and hi: "a * 2 ^ fmt_shift fb eb < 2 ^ (fb + e)"
  shows "round_mag fb eb a < (2 ^ eb - 1) * 2 ^ fb
     \<and> mag_of fb eb (round_mag fb eb a)
         = of_int (round_even (a * 2 ^ fmt_shift fb eb / 2 ^ (e - 1))) * 2 ^ (e - 1) / 2 ^ fmt_shift fb eb
     \<and> 2 ^ fb \<le> round_even (a * 2 ^ fmt_shift fb eb / 2 ^ (e - 1))"
proof -
  define sh where "sh = fmt_shift fb eb"
  define x where "x = a * 2 ^ sh"
  define m where "m = round_even (x / 2 ^ (e - 1))"
  have lo': "2 ^ (fb + (e - 1)) \<le> x" and hi': "x < 2 ^ (fb + e)"
    using lo hi by (simp_all add: x_def sh_def)
  have "(2 ^ (fb + (e - 1)) :: int) \<le> \<lfloor>x\<rfloor>" using lo' by (simp add: le_floor_iff)
  then have n1: "2 ^ (fb + (e - 1)) \<le> nat \<lfloor>x\<rfloor>"
    by (rule pow_le_nat)
  have "\<lfloor>x\<rfloor> < 2 ^ (fb + e)" using hi' by (simp add: floor_less_iff)
  then have n2: "nat \<lfloor>x\<rfloor> < 2 ^ Suc (fb + (e - 1))"
    using e(1) by (simp add: nat_less_iff)
  have "bitlen (nat \<lfloor>x\<rfloor>) = Suc (fb + (e - 1))" by (rule bitlen_eq [OF n1 n2])
  then have bl: "bitlen (nat \<lfloor>x\<rfloor>) - fb = e" using e(1) by simp
  have ee: "min (2 ^ eb - 2) (max 1 (bitlen (nat \<lfloor>x\<rfloor>) - fb)) = e"
    unfolding bl using e by simp
  have p: "(0::rat) < 2 ^ (e - 1)" by simp
  have y1: "of_int (2 ^ fb) \<le> x / 2 ^ (e - 1)"
    using lo' by (simp add: power_add pos_le_divide_eq)
  have y2: "x / 2 ^ (e - 1) \<le> of_int (2 ^ (fb + 1))"
  proof -
    have "fb + e = (fb + 1) + (e - 1)" using e(1) by simp
    then have "(2::rat) ^ (fb + e) = 2 ^ (fb + 1) * 2 ^ (e - 1)"
      by (simp only: power_add)
    then show ?thesis using hi' by (simp add: pos_divide_le_eq)
  qed
  have m1: "2 ^ fb \<le> m" unfolding m_def by (rule round_even_ge [OF y1])
  have m2: "m \<le> 2 ^ (fb + 1)" unfolding m_def by (rule round_even_le [OF y2])
  define M where "M = nat m - 2 ^ fb"
  have nm: "nat m = 2 ^ fb + M"
  proof -
    have "(2::nat) ^ fb \<le> nat m" using m1 by (rule pow_le_nat)
    then show ?thesis by (simp add: M_def)
  qed
  have M: "M \<le> 2 ^ fb"
  proof -
    have "nat m \<le> 2 ^ (fb + 1)" using m2 by (rule nat_le_pow)
    then show ?thesis by (simp add: M_def)
  qed
  have om: "(of_int m :: rat) = of_nat (2 ^ fb + M)"
  proof -
    have "(0::int) \<le> 2 ^ fb" by simp
    then have "0 \<le> m" using m1 by linarith
    then have "(of_int m :: rat) = of_nat (nat m)" by simp
    then show ?thesis by (simp only: nm)
  qed
  define b where "b = (e - 1) * 2 ^ fb + nat m"
  have b: "b = e * 2 ^ fb + M"
    using e(1) unfolding b_def nm by (cases e) simp_all
  have "b \<le> (e + 1) * 2 ^ fb" using M by (simp add: b)
  also have "\<dots> < (2 ^ eb - 1) * 2 ^ fb"
    using e(2) by (intro mult_strict_right_mono) simp_all
  finally have fin: "b < (2 ^ eb - 1) * 2 ^ fb" .
  then have r: "round_mag fb eb a = b"
    unfolding round_mag_def Let_def sh_def [symmetric] x_def [symmetric] ee m_def [symmetric]
      b_def [symmetric] by simp
  have v: "mag_of fb eb b = of_int m * 2 ^ (e - 1) / 2 ^ sh"
  proof (cases "M = 2 ^ fb")
    case True
    then have b2: "b = (e + 1) * 2 ^ fb" by (simp add: b)
    have d: "b div 2 ^ fb mod 2 ^ eb = e + 1" using e(2) by (simp add: b2)
    have f: "b mod 2 ^ fb = 0" by (simp add: b2)
    have "(2::rat) * 2 ^ (e - 1) = 2 ^ e" using e(1) by (cases e) simp_all
    then have "(of_nat (2 ^ fb + M) :: rat) * 2 ^ (e - 1) = 2 ^ fb * 2 ^ e"
      by (simp add: True)
    then show ?thesis
      unfolding mag_of_def Let_def d f sh_def [symmetric] om by simp
  next
    case False
    then have Ml: "M < 2 ^ fb" using M by simp
    have d: "b div 2 ^ fb mod 2 ^ eb = e" using e(2) Ml by (simp add: b)
    have f: "b mod 2 ^ fb = M" using Ml by (simp add: b)
    show ?thesis
      unfolding mag_of_def Let_def d f sh_def [symmetric] om using e(1) by simp
  qed
  show ?thesis
    using fin v m1 unfolding r m_def x_def sh_def by simp
qed


lemma fmt_shift_float: "fmt_shift 23 8 = 149"
  by (simp add: fmt_shift_def)

lemma finite_mk_float:
  assumes "b < 255 * 2 ^ 23"
  shows "\<not> is_nan (mk_float s b)" "\<not> is_inf (mk_float s b)" "fsign (mk_float s b) = s"
    "fmag (mk_float s b) = mag_of 23 8 b"
proof -
  have b: "b < 2 ^ 31" using assms by simp
  have "b div 2 ^ 23 < 255" using assms by (simp add: less_mult_imp_div_less)
  then have "fexp (mk_float s b) \<noteq> 255" by (simp add: fexp_def fbits_mk_float [OF b])
  then show "\<not> is_nan (mk_float s b)" "\<not> is_inf (mk_float s b)"
    by (simp_all add: is_nan_def is_inf_def)
  show "fsign (mk_float s b) = s" by (rule fsign_mk_float [OF b])
  show "fmag (mk_float s b) = mag_of 23 8 b" by (simp add: fmag_def fbits_mk_float [OF b])
qed

lemma fround_normal:
  fixes a :: rat
  assumes "1 / 2 ^ 126 \<le> a" "a < 2 ^ 100"
  shows "\<exists>e. 1 \<le> e \<and> e \<le> 226
      \<and> 2 ^ 23 \<le> round_even (a * 2 ^ 149 / 2 ^ (e - 1))
      \<and> 2 ^ (23 + (e - 1)) \<le> a * 2 ^ 149 \<and> a * 2 ^ 149 < 2 ^ (23 + e)
      \<and> valof (fround False a) = of_int (round_even (a * 2 ^ 149 / 2 ^ (e - 1))) * 2 ^ (e - 1) / 2 ^ 149
      \<and> \<not> is_nan (fround False a) \<and> \<not> is_inf (fround False a) \<and> \<not> fsign (fround False a)"
proof -
  have lo: "(2::rat) ^ 23 \<le> a * 2 ^ 149"
  proof -
    have "1 / 2 ^ 126 * 2 ^ 149 \<le> a * (2 ^ 149 :: rat)"
      using assms(1) by (intro mult_right_mono) simp_all
    moreover have "(1 / 2 ^ 126 * 2 ^ 149 :: rat) = 2 ^ 23" by simp
    ultimately show ?thesis by (simp only:)
  qed
  have hi: "a * 2 ^ 149 < (2::rat) ^ (23 + 226)"
  proof -
    have "a * 2 ^ 149 < 2 ^ 100 * (2 ^ 149 :: rat)"
      using assms(2) by (intro mult_strict_right_mono) simp_all
    moreover have "(2 ^ 100 * 2 ^ 149 :: rat) = 2 ^ (23 + 226)" by simp
    ultimately show ?thesis by (simp only:)
  qed
  from binade_exists [OF lo hi] obtain e where e: "1 \<le> e" "e \<le> 226"
    and l: "2 ^ (23 + (e - 1)) \<le> a * 2 ^ 149" and h: "a * 2 ^ 149 < 2 ^ (23 + e)" by blast
  have e2: "e + 2 < 2 ^ 8" using e(2) by simp
  have l': "2 ^ (23 + (e - 1)) \<le> a * 2 ^ fmt_shift 23 8"
    and h': "a * 2 ^ fmt_shift 23 8 < 2 ^ (23 + e)"
    using l h by (simp_all only: fmt_shift_float)
  from round_mag_binade [OF e(1) e2 l' h']
  have r: "round_mag 23 8 a < 255 * 2 ^ 23"
    and v: "mag_of 23 8 (round_mag 23 8 a)
         = of_int (round_even (a * 2 ^ 149 / 2 ^ (e - 1))) * 2 ^ (e - 1) / 2 ^ 149"
    and m: "2 ^ 23 \<le> round_even (a * 2 ^ 149 / 2 ^ (e - 1))"
    by (simp_all only: fmt_shift_float) simp_all
  note f = finite_mk_float [OF r, of False]
  have fs: "fsign (fround False a) = False" unfolding fround_def by (rule f(3))
  have "valof (fround False a) = mag_of 23 8 (round_mag 23 8 a)"
    unfolding valof_def fs unfolding fround_def by (simp only: if_False f(4))
  then have v': "valof (fround False a)
       = of_int (round_even (a * 2 ^ 149 / 2 ^ (e - 1))) * 2 ^ (e - 1) / 2 ^ 149"
    by (simp only: v)
  have n1: "\<not> is_nan (fround False a)" unfolding fround_def by (rule f(1))
  have n2: "\<not> is_inf (fround False a)" unfolding fround_def by (rule f(2))
  have n3: "\<not> fsign (fround False a)" by (simp only: fs not_False_eq_True)
  show ?thesis
    by (rule exI [of _ e]) (intro conjI e m l h v' n1 n2 n3)
qed


lemma fround_error:
  fixes a :: rat
  assumes "1 / 2 ^ 126 \<le> a" "a < 2 ^ 100"
  shows "\<bar>valof (fround False a) - a\<bar> \<le> a / 2 ^ 24"
proof -
  define P :: rat where "P = 2 ^ 149"
  have P: "0 < P" by (simp add: P_def)
  from fround_normal [OF assms] obtain e where e: "1 \<le> e"
    and l: "2 ^ (23 + (e - 1)) \<le> a * P"
    and v: "valof (fround False a) = of_int (round_even (a * P / 2 ^ (e - 1))) * 2 ^ (e - 1) / P"
    unfolding P_def by blast
  define q where "q = a * P / 2 ^ (e - 1)"
  define u :: rat where "u = 2 ^ (e - 1) / P"
  define m where "m = round_even q"
  have u: "0 < u" using P by (simp add: u_def)
  have a: "a = q * u" using P by (simp add: q_def u_def)
  have vv: "valof (fround False a) = of_int m * u"
    unfolding v m_def q_def u_def by simp
  have q: "2 ^ 23 \<le> q"
    using l by (simp add: q_def power_add pos_le_divide_eq)
  have "\<bar>of_int m - q\<bar> \<le> 1 / 2" unfolding m_def by (rule round_even_near)
  also have "\<dots> \<le> q / 2 ^ 24" using q by simp
  finally have "\<bar>of_int m - q\<bar> * u \<le> q / 2 ^ 24 * u"
    using u by (intro mult_right_mono) simp_all
  moreover have "\<bar>valof (fround False a) - a\<bar> = \<bar>of_int m - q\<bar> * u"
  proof -
    have "valof (fround False a) - a = (of_int m - q) * u"
      unfolding vv by (subst a) (simp add: algebra_simps)
    then show ?thesis using u by (simp add: abs_mult)
  qed
  moreover have "q / 2 ^ 24 * u = a / 2 ^ 24" by (subst a) simp
  ultimately show ?thesis by (simp only:)
qed

lemma fmag_decode:
  assumes "\<not> is_nan z" "\<not> is_inf z"
  shows "(\<exists>f. f < 2 ^ 23 \<and> fmag z = of_nat f / 2 ^ 149)
     \<or> (\<exists>ez f. 1 \<le> ez \<and> f < 2 ^ 23 \<and> fmag z = of_nat (2 ^ 23 + f) * 2 ^ (ez - 1) / 2 ^ 149)"
proof -
  define ez where "ez = fbits z div 2 ^ 23"
  define f where "f = fbits z mod 2 ^ 23"
  have f: "f < 2 ^ 23" by (simp add: f_def)
  have "fbits z < 2 ^ 31" by (rule fbits_less)
  then have "fbits z < 256 * 2 ^ 23" by simp
  then have "ez < 256" unfolding ez_def by (simp add: less_mult_imp_div_less)
  then have em: "fbits z div 2 ^ 23 mod 2 ^ 8 = ez" by (simp add: ez_def)
  show ?thesis
  proof (cases "ez = 0")
    case True
    then have "fmag z = of_nat f / 2 ^ 149"
      unfolding fmag_def mag_of_def Let_def em fmt_shift_float f_def by simp
    with f show ?thesis by blast
  next
    case False
    then have "fmag z = of_nat (2 ^ 23 + f) * 2 ^ (ez - 1) / 2 ^ 149"
      unfolding fmag_def mag_of_def Let_def em fmt_shift_float f_def by simp
    moreover have "1 \<le> ez" using False by simp
    ultimately show ?thesis using f by blast
  qed
qed

lemma fround_ge:
  fixes a :: rat
  assumes a: "1 / 2 ^ 126 \<le> a" "a < 2 ^ 100"
    and z: "\<not> is_nan z" "\<not> is_inf z" "valof z \<le> a"
  shows "valof z \<le> valof (fround False a)"
proof -
  define P :: rat where "P = 2 ^ 149"
  have P: "0 < P" by (simp add: P_def)
  from fround_normal [OF a] obtain e where e: "1 \<le> e"
    and l: "2 ^ (23 + (e - 1)) \<le> a * P" and h: "a * P < 2 ^ (23 + e)"
    and m: "2 ^ 23 \<le> round_even (a * P / 2 ^ (e - 1))"
    and v: "valof (fround False a) = of_int (round_even (a * P / 2 ^ (e - 1))) * 2 ^ (e - 1) / P"
    unfolding P_def by blast
  define m where "m = round_even (a * P / 2 ^ (e - 1))"
  have m1: "(2 ^ 23 :: rat) \<le> of_int m"
  proof -
    have "(of_int (2 ^ 23) :: rat) \<le> of_int m" using m unfolding m_def by (simp only: of_int_le_iff)
    then show ?thesis by simp
  qed
  have v': "valof (fround False a) * P = of_int m * 2 ^ (e - 1)"
    unfolding v m_def using P by simp
  have pos: "0 \<le> valof (fround False a)"
  proof -
    have "0 \<le> of_int m * (2::rat) ^ (e - 1) / P" using m1 P by simp
    then show ?thesis unfolding v m_def .
  qed
  have key: "fmag z * P \<le> of_int m * 2 ^ (e - 1)" if le: "fmag z \<le> a"
  proof -
    have zP: "fmag z * P \<le> a * P" using le P by (intro mult_right_mono) simp_all
    from fmag_decode [OF z(1) z(2)] show ?thesis
    proof (elim disjE exE conjE)
      fix f :: nat
      assume f: "f < 2 ^ 23" and fm: "fmag z = of_nat f / 2 ^ 149"
      have "fmag z * P = of_nat f" unfolding fm P_def by simp
      also have "\<dots> \<le> (2 ^ 23 :: rat)"
      proof -
        have "(of_nat f :: rat) \<le> of_nat (2 ^ 23)" using f by (intro iffD2 [OF of_nat_le_iff]) simp
        then show ?thesis by simp
      qed
      also have "\<dots> \<le> of_int m" by (rule m1)
      also have "\<dots> \<le> of_int m * 2 ^ (e - 1)"
      proof -
        have "(0::rat) \<le> 2 ^ 23" by simp
        then have "(0::rat) \<le> of_int m" using m1 by (rule order_trans)
        moreover have "(1::rat) \<le> 2 ^ (e - 1)" by simp
        ultimately show ?thesis by (metis mult.right_neutral mult_left_mono)
      qed
      finally show ?thesis .
    next
      fix ez f :: nat
      assume ez: "1 \<le> ez" and f: "f < 2 ^ 23"
        and fm: "fmag z = of_nat (2 ^ 23 + f) * 2 ^ (ez - 1) / 2 ^ 149"
      have zp: "fmag z * P = of_nat (2 ^ 23 + f) * 2 ^ (ez - 1)" unfolding fm P_def by simp
      have ee: "ez \<le> e"
      proof (rule ccontr)
        assume "\<not> ez \<le> e"
        then have "e \<le> ez - 1" by simp
        then have "(2::rat) ^ e \<le> 2 ^ (ez - 1)" by (intro power_increasing) simp_all
        then have "(2::rat) ^ 23 * 2 ^ e \<le> 2 ^ 23 * 2 ^ (ez - 1)" by simp
        also have "\<dots> \<le> of_nat (2 ^ 23 + f) * 2 ^ (ez - 1)"
          by (intro mult_right_mono) simp_all
        also have "\<dots> \<le> a * P" using zP by (simp only: zp)
        finally show False using h by (simp add: power_add)
      qed
      show ?thesis
      proof (cases "ez = e")
        case True
        have "of_nat (2 ^ 23 + f) * 2 ^ (e - 1) \<le> a * P" using zP unfolding zp True .
        then have "(of_int (int (2 ^ 23 + f)) :: rat) \<le> a * P / 2 ^ (e - 1)"
          by (simp add: pos_le_divide_eq)
        then have "int (2 ^ 23 + f) \<le> m" unfolding m_def by (rule round_even_ge)
        then have "(of_int (int (2 ^ 23 + f)) :: rat) \<le> of_int m" by (simp only: of_int_le_iff)
        then have "(of_nat (2 ^ 23 + f) :: rat) \<le> of_int m" by simp
        then have "(of_nat (2 ^ 23 + f) :: rat) * 2 ^ (e - 1) \<le> of_int m * 2 ^ (e - 1)"
          by (intro mult_right_mono) simp_all
        then show ?thesis unfolding zp True .
      next
        case False
        then have "ez \<le> e - 1" using ee by simp
        then have pw: "(2::rat) ^ ez \<le> 2 ^ (e - 1)" by (intro power_increasing) simp_all
        have "(of_nat (2 ^ 23 + f) :: rat) \<le> of_nat (2 ^ 24)"
          using f by (intro iffD2 [OF of_nat_le_iff]) simp
        then have "(of_nat (2 ^ 23 + f) :: rat) \<le> 2 ^ 23 * 2" by simp
        then have "(of_nat (2 ^ 23 + f) :: rat) * 2 ^ (ez - 1) \<le> 2 ^ 23 * 2 * 2 ^ (ez - 1)"
          by (intro mult_right_mono) simp_all
        also have "\<dots> = 2 ^ 23 * 2 ^ ez" using ez by (cases ez) simp_all
        also have "\<dots> \<le> 2 ^ 23 * 2 ^ (e - 1)" using pw by simp
        also have "\<dots> \<le> of_int m * 2 ^ (e - 1)" using m1 by (intro mult_right_mono) simp_all
        finally show ?thesis unfolding zp .
      qed
    qed
  qed
  show ?thesis
  proof (cases "fsign z")
    case True
    then have "valof z \<le> 0" by (simp add: valof_def fmag_def mag_of_nonneg)
    then show ?thesis using pos by linarith
  next
    case False
    then have vz: "valof z = fmag z" by (simp add: valof_def)
    then have "fmag z \<le> a" using z(3) by simp
    from key [OF this] have "valof z * P \<le> valof (fround False a) * P"
      unfolding v' vz .
    then show ?thesis using P by simp
  qed
qed

section \<open>Verification: counts and the arrays of the normalization\<close>

lemma round_mag_of_nat:
  assumes j: "1 \<le> j" "j < 2 ^ (fb + 1)"
    and fmt: "fb \<le> fmt_shift fb eb" "fmt_shift fb eb + 3 < 2 ^ eb"
  shows "round_mag fb eb (of_nat j) < (2 ^ eb - 1) * 2 ^ fb
     \<and> mag_of fb eb (round_mag fb eb (of_nat j)) = of_nat j"
proof -
  define sh where "sh = fmt_shift fb eb"
  define x :: rat where "x = of_nat j * 2 ^ sh"
  have lo: "2 ^ fb \<le> x"
  proof -
    have "(2::rat) ^ fb \<le> 2 ^ sh" using fmt(1) unfolding sh_def by (intro power_increasing) simp_all
    also have "\<dots> = 1 * 2 ^ sh" by simp
    also have "\<dots> \<le> of_nat j * 2 ^ sh" using j(1) by (intro mult_right_mono) simp_all
    finally show ?thesis unfolding x_def .
  qed
  have hi: "x < 2 ^ (fb + (sh + 1))"
  proof -
    have "(of_nat j :: rat) < of_nat (2 ^ (fb + 1))" using j(2) by (simp only: of_nat_less_iff)
    then have "(of_nat j :: rat) < 2 ^ (fb + 1)" by simp
    then have "of_nat j * (2::rat) ^ sh < 2 ^ (fb + 1) * 2 ^ sh"
      by (intro mult_strict_right_mono) simp_all
    also have "\<dots> = 2 ^ (fb + (sh + 1))" by (simp add: power_add)
    finally show ?thesis unfolding x_def .
  qed
  from binade_exists [OF lo hi] obtain e where e: "1 \<le> e" "e \<le> sh + 1"
    and l: "2 ^ (fb + (e - 1)) \<le> x" and h: "x < 2 ^ (fb + e)" by blast
  have e2: "e + 2 < 2 ^ eb" using e(2) fmt(2) unfolding sh_def by simp
  have es: "e - 1 \<le> sh" using e(2) by simp
  have l': "2 ^ (fb + (e - 1)) \<le> (of_nat j :: rat) * 2 ^ fmt_shift fb eb"
    and h': "(of_nat j :: rat) * 2 ^ fmt_shift fb eb < 2 ^ (fb + e)"
    using l h unfolding x_def sh_def by simp_all
  have "sh = (sh - (e - 1)) + (e - 1)" using es by simp
  then have "(2::rat) ^ sh = 2 ^ ((sh - (e - 1)) + (e - 1))" by (rule arg_cong)
  then have p: "(2::rat) ^ sh = 2 ^ (sh - (e - 1)) * 2 ^ (e - 1)" by (simp only: power_add)
  have q: "x / 2 ^ (e - 1) = of_nat (j * 2 ^ (sh - (e - 1)))"
    unfolding x_def p by simp
  have m: "round_even (x / 2 ^ (e - 1)) = int (j * 2 ^ (sh - (e - 1)))"
    unfolding q by (rule round_even_of_nat)
  from round_mag_binade [OF e(1) e2 l' h']
  have r: "round_mag fb eb (of_nat j) < (2 ^ eb - 1) * 2 ^ fb"
    and v: "mag_of fb eb (round_mag fb eb (of_nat j))
        = of_int (round_even (x / 2 ^ (e - 1))) * 2 ^ (e - 1) / 2 ^ sh"
    unfolding x_def sh_def by simp_all
  have "mag_of fb eb (round_mag fb eb (of_nat j)) = of_nat j"
    unfolding v m unfolding p by simp
  with r show ?thesis by simp
qed

lemma fmt_shift_double: "fmt_shift 52 11 = 1074"
  by (simp add: fmt_shift_def)

lemma double_of_nat:
  assumes "1 \<le> j" "j \<le> 2 ^ 24 + 1"
  shows "mag_of 52 11 (round_mag 52 11 (of_nat j)) = of_nat j"
proof -
  have "j < 2 ^ (52 + 1)" using assms(2) by simp
  moreover have "52 \<le> fmt_shift 52 11" "fmt_shift 52 11 + 3 < 2 ^ 11"
    by (simp_all add: fmt_shift_double)
  ultimately show ?thesis using round_mag_of_nat [OF assms(1), of 52 11] by blast
qed

lemma fround_of_nat_small:
  assumes "1 \<le> j" "j < 2 ^ 24"
  shows "round_mag 23 8 (of_nat j) < 255 * 2 ^ 23
     \<and> mag_of 23 8 (round_mag 23 8 (of_nat j)) = of_nat j"
proof -
  have "j < 2 ^ (23 + 1)" using assms(2) by simp
  moreover have "23 \<le> fmt_shift 23 8" "fmt_shift 23 8 + 3 < 2 ^ 8"
    by (simp_all add: fmt_shift_float)
  ultimately show ?thesis using round_mag_of_nat [OF assms(1), of 23 8] by simp
qed

lemma mag_2p24: "mag_of 23 8 1266679808 = 16777216"
  by (simp add: mag_of_def fmt_shift_def Let_def)

lemma round_mag_2p24: "round_mag 23 8 16777216 = 1266679808"
  using round_mag_mag_of [of 1266679808] by (simp add: mag_2p24)

lemma round_even_tie: "round_even (16777217 / 2) = 8388608"
proof -
  have f: "\<lfloor>(16777217 / 2 :: rat)\<rfloor> = 8388608" by (rule floor_unique) simp_all
  show ?thesis unfolding round_even_def Let_def f by simp
qed

lemma round_mag_2p24_1: "round_mag 23 8 16777217 = 1266679808"
proof -
  have e: "(1::nat) \<le> 151" "(151::nat) + 2 < 2 ^ 8" by simp_all
  have l: "2 ^ (23 + (151 - 1)) \<le> (16777217 :: rat) * 2 ^ fmt_shift 23 8"
    by (simp add: fmt_shift_float)
  have h: "(16777217 :: rat) * 2 ^ fmt_shift 23 8 < 2 ^ (23 + 151)"
    by (simp add: fmt_shift_float)
  have q: "(16777217 :: rat) * 2 ^ 149 / 2 ^ (151 - 1) = 16777217 / 2" by simp
  from round_mag_binade [OF e l h]
  have r: "round_mag 23 8 16777217 < 255 * 2 ^ 23"
    and v: "mag_of 23 8 (round_mag 23 8 16777217) = 16777216"
    unfolding fmt_shift_float q round_even_tie by simp_all
  have "round_mag 23 8 (mag_of 23 8 (round_mag 23 8 16777217)) = round_mag 23 8 16777217"
    by (rule round_mag_mag_of [OF r])
  then show ?thesis unfolding v round_mag_2p24 by simp
qed

lemma fround_count:
  assumes "1 \<le> j" "j \<le> 2 ^ 24"
  shows "is_count (fround False (of_nat j))" "fmag (fround False (of_nat j)) = of_nat j"
proof -
  have r: "round_mag 23 8 (of_nat j) < 255 * 2 ^ 23
     \<and> mag_of 23 8 (round_mag 23 8 (of_nat j)) = of_nat j"
  proof (cases "j = 2 ^ 24")
    case True
    then have "(of_nat j :: rat) = 16777216" by simp
    then show ?thesis by (simp only: round_mag_2p24 mag_2p24) simp
  next
    case False
    then have "j < 2 ^ 24" using assms(2) by simp
    then show ?thesis by (rule fround_of_nat_small [OF assms(1)])
  qed
  note f = finite_mk_float [OF conjunct1 [OF r], of False]
  show m: "fmag (fround False (of_nat j)) = of_nat j"
    unfolding fround_def f(4) by (rule conjunct2 [OF r])
  have "(of_nat j :: rat) \<le> of_nat (2 ^ 24)" using assms(2) by (simp only: of_nat_le_iff)
  then have "(of_nat j :: rat) \<le> 2 ^ 24" by simp
  moreover have "(of_nat j :: rat) = of_int \<lfloor>(of_nat j :: rat)\<rfloor>" by simp
  ultimately show "is_count (fround False (of_nat j))"
    unfolding is_count_def m using f(1,2,3) unfolding fround_def by simp
qed

lemma is_count_0: "is_count 0"
  by (simp add: is_count_def finite_0 fsign_def fmag_def)

lemma is_count_value:
  assumes "is_count x"
  shows "0 \<le> int_of_float x" "int_of_float x \<le> 2 ^ 24"
    "valof x = of_int (int_of_float x)" "fmag x = of_int (int_of_float x)"
    "fgt0 x \<longleftrightarrow> 1 \<le> int_of_float x" "fne0 x \<longleftrightarrow> 1 \<le> int_of_float x"
proof -
  from assms have n: "\<not> is_nan x" "\<not> is_inf x" "\<not> fsign x"
    and i: "fmag x = of_int \<lfloor>fmag x\<rfloor>" and u: "fmag x \<le> 2 ^ 24"
    by (simp_all add: is_count_def)
  have nn: "0 \<le> fmag x" by (simp add: fmag_def mag_of_nonneg)
  have f0: "0 \<le> \<lfloor>fmag x\<rfloor>" using nn by simp
  have "fmag x \<le> of_int (2 ^ 24)" using u by simp
  then have f1: "\<lfloor>fmag x\<rfloor> \<le> 2 ^ 24" by (simp only: floor_le_iff)
  have c: "int_of_float x = \<lfloor>fmag x\<rfloor>"
    using n f0 f1 by (simp add: int_of_float_def Let_def)
  show "0 \<le> int_of_float x" "int_of_float x \<le> 2 ^ 24" using f0 f1 by (simp_all only: c)
  show v: "valof x = of_int (int_of_float x)" using n i by (simp add: valof_def c)
  show "fmag x = of_int (int_of_float x)" using i by (simp add: c)
  have "(0 < (of_int (int_of_float x) :: rat)) = (1 \<le> int_of_float x)" by simp linarith
  then show "fgt0 x \<longleftrightarrow> 1 \<le> int_of_float x" using n by (simp add: fgt0_def v)
  have "((of_int (int_of_float x) :: rat) \<noteq> 0) = (1 \<le> int_of_float x)"
    using \<open>0 \<le> int_of_float x\<close> by simp linarith
  then show "fne0 x \<longleftrightarrow> 1 \<le> int_of_float x" using n by (simp add: fne0_def v)
qed

lemma is_count_fadd_one:
  assumes "is_count x"
  shows "is_count (fadd_one x)"
proof -
  from assms have n: "\<not> is_nan x" "\<not> is_inf x" by (simp_all add: is_count_def)
  define c where "c = int_of_float x"
  note cv = is_count_value [OF assms, folded c_def]
  define j where "j = nat c + 1"
  have j: "1 \<le> j" "j \<le> 2 ^ 24 + 1" using cv(1,2) by (simp_all add: j_def)
  have s: "valof x + 1 = of_nat j" using cv(1) by (simp add: cv(3) j_def)
  have s0: "(of_nat j :: rat) \<noteq> 0" "\<not> (of_nat j :: rat) < 0" "\<bar>of_nat j :: rat\<bar> = of_nat j"
    using j(1) by simp_all
  have a: "fadd_one x = fround False (of_nat j)"
    unfolding fadd_one_def Let_def s using n s0 by (simp add: double_of_nat [OF j])
  show ?thesis
  proof (cases "j = 2 ^ 24 + 1")
    case True
    then have "(of_nat j :: rat) = 16777217" by simp
    then have "fadd_one x = fround False (of_nat (2 ^ 24))"
      unfolding a fround_def by (simp add: round_mag_2p24_1 round_mag_2p24)
    then show ?thesis using fround_count(1) [of "2 ^ 24"] by simp
  next
    case False
    then have "j \<le> 2 ^ 24" using j(2) by simp
    then show ?thesis unfolding a by (rule fround_count(1) [OF j(1)])
  qed
qed


lemma counts_bump_cdf:
  assumes "each_array (list_all is_count) c"
  shows "each_array (list_all is_count) (bump_cdf pos k c)"
proof -
  have u: "list_all is_count (xs[k := fadd_one (xs ! k)])" if "list_all is_count xs" for xs
    using that by (intro list_all_update) (simp_all add: list_all_length is_count_fadd_one)
  show ?thesis using assms by (cases pos) (simp_all add: each_array_def u)
qed

lemma counts_bump_single:
  "each_cdf (each_array (list_all is_count)) d \<Longrightarrow>
   each_cdf (each_array (list_all is_count)) (bump_single pos i d)"
  by (simp add: each_cdf_def bump_single_def counts_bump_cdf)

lemma counts_row_bump:
  assumes "list_all (each_array (list_all is_count)) row"
  shows "list_all (each_array (list_all is_count)) (row[j := bump_cdf pos k (row ! j)])"
  using assms by (intro list_all_update) (simp_all add: list_all_length counts_bump_cdf)

lemma counts_bump_double:
  "each_cdf (each_array (list_all is_count)) d \<Longrightarrow>
   each_cdf (each_array (list_all is_count)) (bump_double pos i j d)"
  by (simp add: each_cdf_def bump_double_def counts_row_bump)

lemma counts_bump_triple:
  assumes "each_cdf (each_array (list_all is_count)) d"
  shows "each_cdf (each_array (list_all is_count)) (bump_triple pos i j k d)"
proof -
  from assms have t: "list_all (list_all (each_array (list_all is_count))) (triples d)"
    by (simp add: each_cdf_def)
  have r: "list_all (each_array (list_all is_count))
      ((triples d ! i)[j := bump_cdf pos k (triples d ! i ! j)])" if "i < length (triples d)"
  proof -
    have "list_all (each_array (list_all is_count)) (triples d ! i)"
      using t that by (simp add: list_all_length)
    then show ?thesis by (rule counts_row_bump)
  qed
  have "list_all (list_all (each_array (list_all is_count)))
      ((triples d)[i := (triples d ! i)[j := bump_cdf pos k (triples d ! i ! j)]])"
    by (rule list_all_update [OF t]) (rule r)
  then show ?thesis using assms by (simp add: each_cdf_def bump_triple_def)
qed

lemma counts_bump_window:
  "each_cdf (each_array (list_all is_count)) d \<Longrightarrow>
   each_cdf (each_array (list_all is_count)) (bump_window pos w p d)"
  by (simp add: bump_window_def counts_bump_single counts_bump_double counts_bump_triple)

lemma counts_bump_end:
  "each_cdf (each_array (list_all is_count)) d \<Longrightarrow>
   each_cdf (each_array (list_all is_count)) (bump_end w q d)"
  by (simp add: bump_end_def counts_bump_single counts_bump_double counts_bump_triple)

lemma counts_fold_bump_window:
  "each_cdf (each_array (list_all is_count)) d \<Longrightarrow>
   each_cdf (each_array (list_all is_count)) (fold (bump_window pos w) ps d)"
  by (induction ps arbitrary: d) (simp_all add: counts_bump_window)

lemma counts_count_name_spec:
  "each_cdf (each_array (list_all is_count)) d \<Longrightarrow>
   each_cdf (each_array (list_all is_count)) (count_name_spec w d)"
  by (simp add: count_name_spec_def counts_fold_bump_window counts_bump_end counts_bump_window)

lemma counts_build_loop:
  "each_cdf (each_array (list_all is_count)) d \<Longrightarrow> build_loop bufs d out = Some (d', out') \<Longrightarrow>
   each_cdf (each_array (list_all is_count)) d'"
proof (induction bufs arbitrary: d out)
  case Nil
  then show ?case by simp
next
  case (Cons buf bufs)
  obtain buf2 msgs where c: "clean_chars [] (c_string buf) = (buf2, msgs)"
    by (cases "clean_chars [] (c_string buf)") auto
  show ?case
  proof (cases "length buf2 < 3")
    case True
    then show ?thesis using Cons.IH [OF Cons.prems(1)] Cons.prems(2) by (simp add: c)
  next
    case False
    then have "count_name buf2 d = Some (count_name_spec buf2 d)"
      by (intro count_name_eq_spec) simp
    then show ?thesis
      using False Cons.IH [OF counts_count_name_spec [OF Cons.prems(1)]] Cons.prems(2)
      by (simp add: c)
  qed
qed

lemma counts_new_ltrfile: "each_cdf (each_array (list_all is_count)) (data new_ltrfile)"
  by (simp add: each_cdf_def each_array_def new_ltrfile_def zero_cdf_def list_all_length is_count_0)

lemma normalize_loop_fold:
  "normalize_loop n i sc mc ec c s m e =
     \<lparr> start = fst (fold (normalize_step sc) [i..<n] (start c, s)),
       middle = fst (fold (normalize_step mc) [i..<n] (middle c, m)),
       end_cdf = fst (fold (normalize_step ec) [i..<n] (end_cdf c, e)) \<rparr>"
proof (induction n i sc mc ec c s m e rule: normalize_loop.induct)
  case (1 n i sc mc ec c s m e)
  show ?case
  proof (cases "i < n")
    case False
    then show ?thesis by (subst normalize_loop.simps) simp
  next
    case True
    obtain st s' where a: "normalize_step sc i (start c, s) = (st, s')"
      by (cases "normalize_step sc i (start c, s)") auto
    obtain en e' where b: "normalize_step ec i (end_cdf c, e) = (en, e')"
      by (cases "normalize_step ec i (end_cdf c, e)") auto
    obtain mi m' where d: "normalize_step mc i (middle c, m) = (mi, m')"
      by (cases "normalize_step mc i (middle c, m)") auto
    have u: "[i..<n] = i # [i + 1..<n]" using True by (simp add: upt_conv_Cons)
    from "1.IH" [OF True a [symmetric] b [symmetric] d [symmetric]]
    show ?thesis using True by (subst normalize_loop.simps) (simp add: a b d u)
  qed
qed

lemma normalize_cdf_arrays:
  "normalize_cdf n c =
     \<lparr> start = normalize_array n (start c), middle = normalize_array n (middle c),
       end_cdf = normalize_array n (end_cdf c) \<rparr>"
  by (simp add: normalize_cdf_def normalize_array_def normalize_loop_fold)

lemma fold_update_map_aux:
  "k \<le> length xs \<Longrightarrow>
   fold (\<lambda>j r. r[j := f (r ! j)]) [0..<k] xs = map f (take k xs) @ drop k xs"
proof (induction k)
  case 0
  then show ?case by simp
next
  case (Suc k)
  then have k: "k < length xs" by simp
  have "fold (\<lambda>j r. r[j := f (r ! j)]) [0..<Suc k] xs
      = (map f (take k xs) @ drop k xs)[k := f ((map f (take k xs) @ drop k xs) ! k)]"
    using Suc.IH k by simp
  also have "(map f (take k xs) @ drop k xs) ! k = xs ! k"
    using k by (simp add: nth_append)
  also have "(map f (take k xs) @ drop k xs)[k := f (xs ! k)]
      = map f (take k xs) @ (drop k xs)[0 := f (xs ! k)]"
    using k by (simp add: list_update_append)
  also have "drop k xs = xs ! k # drop (Suc k) xs"
    using k by (simp add: Cons_nth_drop_Suc)
  finally show ?case using k by (simp add: take_Suc_conv_app_nth)
qed

lemma fold_update_map:
  "fold (\<lambda>j r. r[j := f (r ! j)]) [0..<length xs] xs = map f xs"
  using fold_update_map_aux [of "length xs" xs f] by simp

lemma normalize_ltrdata_map:
  assumes "wf_ltrdata d"
  shows "normalize_ltrdata NUM_LETTERS d =
     \<lparr> singles = normalize_cdf NUM_LETTERS (singles d),
       doubles = map (normalize_cdf NUM_LETTERS) (doubles d),
       triples = map (map (normalize_cdf NUM_LETTERS)) (triples d) \<rparr>"
proof -
  have r: "normalize_row NUM_LETTERS row = map (normalize_cdf NUM_LETTERS) row" if "wf_row row" for row
    using that fold_update_map [of "normalize_cdf NUM_LETTERS" row]
    by (simp add: normalize_row_def wf_row_def)
  have "fold (\<lambda>i t. t[i := normalize_row NUM_LETTERS (t ! i)]) [0..<NUM_LETTERS] (triples d)
      = map (normalize_row NUM_LETTERS) (triples d)"
    using assms fold_update_map [of "normalize_row NUM_LETTERS" "triples d"]
    by (simp add: wf_ltrdata_def)
  also have "\<dots> = map (map (normalize_cdf NUM_LETTERS)) (triples d)"
    using assms by (intro map_cong) (simp_all add: wf_ltrdata_def list_all_iff r)
  finally show ?thesis using assms by (simp add: normalize_ltrdata_def wf_ltrdata_def r)
qed

lemma fold_normalize_step:
  "i \<le> length xs \<Longrightarrow>
   fst (fold (normalize_step count) [i..<length xs] (xs, acc))
     = take i xs @ normalize_list (float_of_int count) acc (drop i xs)"
proof (induction "length xs - i" arbitrary: i xs acc)
  case 0
  then show ?case by simp
next
  case (Suc k)
  then have i: "i < length xs" by simp
  have u: "[i..<length xs] = i # [Suc i..<length xs]" using i by (simp add: upt_conv_Cons)
  have d: "drop i xs = xs ! i # drop (Suc i) xs" using i by (simp add: Cons_nth_drop_Suc)
  show ?case
  proof (cases "fgt0 (xs ! i)")
    case False
    have k: "k = length xs - Suc i" using Suc.hyps(2) by simp
    have "fst (fold (normalize_step count) [Suc i..<length xs] (xs, acc))
        = take (Suc i) xs @ normalize_list (float_of_int count) acc (drop (Suc i) xs)"
      using Suc.hyps(1) [OF k] i by simp
    then show ?thesis
      using False i by (simp add: u d normalize_step_def take_Suc_conv_app_nth)
  next
    case True
    define v where "v = fadd (fdiv (xs ! i) (float_of_int count)) acc"
    define ys where "ys = xs[i := v]"
    have l: "length ys = length xs" by (simp add: ys_def)
    have k: "k = length ys - Suc i" using Suc.hyps(2) l by simp
    have "fst (fold (normalize_step count) [Suc i..<length ys] (ys, v))
        = take (Suc i) ys @ normalize_list (float_of_int count) v (drop (Suc i) ys)"
      using Suc.hyps(1) [OF k] i l by simp
    moreover have "take (Suc i) ys = take i xs @ [v]"
      using i by (simp add: ys_def take_Suc_conv_app_nth)
    moreover have "drop (Suc i) ys = drop (Suc i) xs" by (simp add: ys_def)
    ultimately have "fst (fold (normalize_step count) [Suc i..<length xs] (ys, v))
        = take i xs @ v # normalize_list (float_of_int count) v (drop (Suc i) xs)"
      by (simp add: l)
    then show ?thesis
      using True by (simp add: u d normalize_step_def Let_def v_def [symmetric] ys_def [symmetric])
  qed
qed

lemma sum_counts_aux:
  "k \<le> length xs \<Longrightarrow>
   fold (\<lambda>i total. total + int_of_float (xs ! i)) [k..<length xs] a
     = a + sum_list (map int_of_float (drop k xs))"
proof (induction "length xs - k" arbitrary: k a)
  case 0
  then show ?case by simp
next
  case (Suc n)
  then have k: "k < length xs" by simp
  have u: "[k..<length xs] = k # [Suc k..<length xs]" using k by (simp add: upt_conv_Cons)
  have d: "drop k xs = xs ! k # drop (Suc k) xs" using k by (simp add: Cons_nth_drop_Suc)
  have n: "n = length xs - Suc k" using Suc.hyps(2) by simp
  show ?case using Suc.hyps(1) [OF n] k by (simp add: u d)
qed

lemma sum_counts_sum_list: "sum_counts (length xs) xs = sum_list (map int_of_float xs)"
  using sum_counts_aux [of 0 xs 0] by (simp add: sum_counts_def)

lemma normalize_array_list:
  "normalize_array (length xs) xs
     = normalize_list (float_of_int (sum_list (map int_of_float xs))) 0 xs"
  using fold_normalize_step [of 0 xs "sum_counts (length xs) xs" 0]
  by (simp add: normalize_array_def sum_counts_sum_list)

section \<open>Verification: the end scan, dead ends, and calls that do not return\<close>

lemma round_mag_le: "round_mag 23 8 a \<le> 255 * 2 ^ 23"
  by (simp add: round_mag_def Let_def)

lemma fround_not_nan: "\<not> is_nan (fround s a)" and fsign_fround: "fsign (fround s a) = s"
proof -
  define b where "b = round_mag 23 8 a"
  have b: "b \<le> 255 * 2 ^ 23" unfolding b_def by (rule round_mag_le)
  then have b31: "b < 2 ^ 31" by simp
  show "fsign (fround s a) = s" unfolding fround_def b_def [symmetric] by (rule fsign_mk_float [OF b31])
  have "b mod 2 ^ 23 = 0" if "b div 2 ^ 23 = 255"
  proof -
    have "b = 255 * 2 ^ 23 + b mod 2 ^ 23" using that div_mult_mod_eq [of b "2 ^ 23"] by simp
    then show ?thesis using b by simp
  qed
  then have "\<not> (b div 2 ^ 23 = 255 \<and> b mod 2 ^ 23 \<noteq> 0)" by auto
  then show "\<not> is_nan (fround s a)"
    unfolding fround_def b_def [symmetric] is_nan_def fexp_def ffrac_def fbits_mk_float [OF b31] .
qed

lemma valof_nonneg: "\<not> fsign x \<Longrightarrow> 0 \<le> valof x"
  by (simp add: valof_def fmag_def mag_of_nonneg)

lemma finite_4F: "\<not> is_nan 0x4F000000" "\<not> is_inf 0x4F000000"
  by (simp_all add: is_nan_def is_inf_def fexp_def float_4F)

lemma nrand_nonneg: "\<not> is_nan (nrand r) \<and> 0 \<le> valof (nrand r)"
proof -
  define A where "A = float_of_int (int r)"
  have A: "A = fround False (of_nat r)" by (simp add: A_def float_of_int_def)
  have nA: "\<not> is_nan A" "\<not> fsign A" unfolding A by (simp_all add: fround_not_nan fsign_fround)
  have m: "fmag 0x4F000000 \<noteq> 0" by (simp add: fmag_def float_4F mag_4F)
  have "nrand r = (if is_inf A then finf False else fround False (fmag A / fmag 0x4F000000))"
    unfolding nrand_def A_def [symmetric] float_of_int_RAND_MAX fdiv_def
    using nA finite_4F m float_4F(2) by simp
  moreover have "\<not> is_nan (finf False)" "\<not> fsign (finf False)"
    by (simp_all add: finf_def finite_mk_float is_nan_def fexp_def ffrac_def)
  ultimately show ?thesis
    by (simp add: fround_not_nan fsign_fround valof_nonneg)
qed

lemma fless_nrand: "fless (nrand r) x \<Longrightarrow> fgt0 x"
  using nrand_nonneg [of r] by (auto simp add: fless_def fgt0_def)

lemma never_returns:
  assumes "\<forall>i<unat (num_letters (header ltr)). \<not> fgt0 (start (singles (data ltr)) ! i)"
  shows "run ltr Again rs = None"
proof (induction rs)
  case Nil
  show ?case by (subst run.simps) simp
next
  case (Cons r rs)
  have "qualifying_index (unat (num_letters (header ltr))) (nrand r) (start (singles (data ltr))) = None"
    using assms fless_nrand [of r] by (auto simp add: qualifying_index_def find_None_iff)
  then have "scan_loop (unat (num_letters (header ltr))) (nrand r) (start (singles (data ltr))) 0
      = unat (num_letters (header ltr))"
    by (simp add: scan_loop_qualifying)
  then have "step ltr Again (r # rs) = Some (Goto Again, rs)" by (simp add: Let_def)
  then show ?case using Cons.IH by (subst run.simps) simp
qed


lemma mag_4E8: "mag_of 23 8 1317011456 = 1073741824"
  by (simp add: mag_of_def fmt_shift_def Let_def)

lemma float_of_int_2p30: "float_of_int 1073741824 = 0x4E800000"
  using fround_mag_of [of 1317011456 False]
  by (simp add: float_of_int_def mag_4E8 mk_float_def)

lemma float_4E8: "fbits 0x4E800000 = 1317011456" "\<not> fsign 0x4E800000"
  by (simp_all add: fbits_def fsign_def)

lemma nrand_half: "fdiv (float_of_int (int 1073741824)) (float_of_int RAND_MAX) = 0x3F000000"
proof -
  have a: "\<not> is_nan 0x4E800000" "\<not> is_inf 0x4E800000"
    by (simp_all add: is_nan_def is_inf_def fexp_def float_4E8)
  have m: "fmag 0x4E800000 = 1073741824" "fmag 0x4F000000 = 2147483648"
    by (simp_all add: fmag_def float_4E8 float_4F mag_4E8 mag_4F)
  have q: "(1073741824 :: rat) / 2147483648 = 1 / 2" by simp
  have i: "int 1073741824 = 1073741824" by simp
  show ?thesis
    unfolding i float_of_int_2p30 float_of_int_RAND_MAX fdiv_def
    using a finite_4F float_4E8(2) float_4F(2) by (simp add: m q fround_half)
qed

lemma nrand_zero: "fdiv (float_of_int (int 0)) (float_of_int RAND_MAX) = 0"
  using nrand_0 by (simp add: nrand_def)

lemma fless_half: "\<not> fless 0x3F000000 0x3F000000" "\<not> fless 0x3F000000 0"
  "fless 0x3F000000 0x3F800000" "fless 0 0x3F000000"
  by (simp_all add: fless_def finite_h finite_0 finite_one valof_half valof_one)

lemma wf_uniform_table:
  assumes "wf_cdf c"
  shows "load_ltr (Some (write_ltr (uniform_table c))) = Inr (uniform_table c)"
proof (rule load_ltr_write_ltr)
  show "wf_ltrfile (uniform_table c)"
    using assms
    by (simp add: wf_ltrfile_def wf_ltrdata_def wf_row_def uniform_table_def new_ltrfile_def
        list_all_length NUM_LETTERS_def LTR_MAGIC_def)
qed (simp_all add: uniform_table_def new_ltrfile_def NUM_LETTERS_def)

lemma wf_example_cdfs: "wf_cdf growing_cdf" "wf_cdf half_end_cdf"
  by (simp_all add: wf_cdf_def growing_cdf_def half_end_cdf_def NUM_LETTERS_def)

lemma context_replicate:
  "2 \<le> k \<Longrightarrow> name_context (uniform_table c) (replicate k CHR ''a'') = c"
  by (simp add: name_context_def uniform_table_def idx_a)

lemma scan_zeros: "scan_loop 28 p zeros 0 = 28" if "\<not> fless p 0"
proof -
  have "qualifying_index 28 p zeros = None"
    using that by (simp add: qualifying_index_def find_None_iff zeros_def)
  then show ?thesis by (simp add: scan_loop_qualifying)
qed

lemma scan_half_end:
  "scan_loop 28 0x3F000000 (0x3F000000 # replicate 27 0) 0 = 28"
  "scan_loop 28 0 (0x3F000000 # replicate 27 0) 0 = 0"
  "scan_loop 28 0x3F000000 unit_first 0 = 0"
proof -
  have "qualifying_index 28 0x3F000000 (0x3F000000 # replicate 27 0) = None"
    by (auto simp add: qualifying_index_def find_None_iff nth_Cons fless_half split: nat.splits)
  then show "scan_loop 28 0x3F000000 (0x3F000000 # replicate 27 0) 0 = 28"
    by (simp add: scan_loop_qualifying)
  have "qualifying_index 28 0 (0x3F000000 # replicate 27 0) = Some 0"
    by (simp add: qualifying_index_def upt_28 fless_half)
  then show "scan_loop 28 0 (0x3F000000 # replicate 27 0) 0 = 0"
    by (simp add: scan_loop_qualifying)
  have "qualifying_index 28 0x3F000000 unit_first = Some 0"
    by (simp add: qualifying_index_def upt_28 unit_first_def fless_half)
  then show "scan_loop 28 0x3F000000 unit_first 0 = 0"
    by (simp add: scan_loop_qualifying)
qed

lemma first_three:
  assumes "start c = unit_first"
  shows "run (uniform_table c) Again (0 # 0 # 0 # rs) = run (uniform_table c) (Extending ''aaa'' 0) rs"
proof -
  have a: "step (uniform_table c) Again (0 # 0 # 0 # rs) = Some (Goto (Second ''a''), 0 # 0 # rs)"
    by (simp add: nrand_0 assms scan_unit_first letters_0)
  have b: "step (uniform_table c) (Second ''a'') (0 # 0 # rs) = Some (Goto (Third ''aa''), 0 # rs)"
    by (simp add: nrand_0 assms scan_unit_first letters_0 idx_a)
  have d: "step (uniform_table c) (Third ''aa'') (0 # rs) = Some (Goto (Extending ''aaa'' 0), rs)"
    by (simp add: nrand_0 assms scan_unit_first letters_0 context_uniform_table)
  have "run (uniform_table c) (Third ''aa'') (0 # rs) = run (uniform_table c) (Extending ''aaa'' 0) rs"
    by (subst run.simps) (simp only: d, simp)
  then have "run (uniform_table c) (Second ''a'') (0 # 0 # rs) = run (uniform_table c) (Extending ''aaa'' 0) rs"
    by (subst run.simps) (simp only: b, simp)
  then show ?thesis
    by (subst run.simps) (simp only: a, simp)
qed

lemma step_growing:
  assumes "2 \<le> k"
  shows "step (uniform_table growing_cdf) (Extending (replicate k CHR ''a'') att) (0 # 0 # rs)
     = Some (if k < 256 then Goto (Extending (replicate (Suc k) CHR ''a'') att) else Overflow, rs)"
proof -
  have r: "replicate k CHR ''a'' @ [CHR ''a''] = replicate (Suc k) CHR ''a''"
    by (simp add: replicate_append_same)
  have z: "scan_loop 28 0 zeros 0 = 28" by (rule scan_zeros) (simp add: fless_0_one)
  show ?thesis
    by (simp add: Let_def nrand_0 context_replicate [OF assms] growing_cdf_def z scan_unit_first
        letters_0 r)
qed

lemma run_growing:
  "3 \<le> k \<Longrightarrow> k \<le> 256 \<Longrightarrow>
   run (uniform_table growing_cdf) (Extending (replicate k CHR ''a'') 0) (replicate (2 * (257 - k)) 0)
     = Some Buffer_overflow"
proof (induction "256 - k" arbitrary: k)
  case 0
  then have k: "k = 256" by simp
  have "step (uniform_table growing_cdf) (Extending (replicate 256 CHR ''a'') 0) (0 # 0 # [])
      = Some (Overflow, [])"
    using step_growing [of 256 0 "[]"] by simp
  moreover have "replicate (2 * (257 - 256)) (0::nat) = [0, 0]" by (simp add: numeral_2_eq_2)
  ultimately show ?case unfolding k by (subst run.simps) simp
next
  case (Suc j)
  then have k: "k < 256" "2 \<le> k" "3 \<le> Suc k" "Suc k \<le> 256" "j = 256 - Suc k" by simp_all
  have "2 * (257 - k) = Suc (Suc (2 * (257 - Suc k)))" using k(1) by simp
  then have d: "replicate (2 * (257 - k)) (0::nat) = 0 # 0 # replicate (2 * (257 - Suc k)) 0"
    by simp
  have s: "step (uniform_table growing_cdf) (Extending (replicate k CHR ''a'') 0)
             (0 # 0 # replicate (2 * (257 - Suc k)) 0)
      = Some (Goto (Extending (replicate (Suc k) CHR ''a'') 0), replicate (2 * (257 - Suc k)) 0)"
    using step_growing [OF k(2), of 0] k(1) by simp
  show ?case
    unfolding d
    by (subst run.simps)
      (simp only: s option.simps prod.simps action.simps Suc.hyps(1) [OF k(5) k(3) k(4)])
qed

lemma step_half_end:
  assumes "2 \<le> k"
  shows "step (uniform_table half_end_cdf) (Extending (replicate k CHR ''a'') att) (1073741824 # 0 # rs)
     = Some (if k < 256 then Goto (Extending (replicate (Suc k) CHR ''a'') att) else Overflow, rs)"
    and "step (uniform_table half_end_cdf) (Extending (replicate k CHR ''a'') att) (0 # 0 # rs)
     = Some (if k + 1 < 256 then Return (capitalize (replicate (Suc k) CHR ''a'')) else Overflow, rs)"
proof -
  have r: "replicate k CHR ''a'' @ [CHR ''a''] = replicate (Suc k) CHR ''a''"
    by (simp add: replicate_append_same)
  have n: "nrand 1073741824 = 0x3F000000" using nrand_half by (simp add: nrand_def)
  show "step (uniform_table half_end_cdf) (Extending (replicate k CHR ''a'') att) (1073741824 # 0 # rs)
     = Some (if k < 256 then Goto (Extending (replicate (Suc k) CHR ''a'') att) else Overflow, rs)"
    by (simp add: Let_def n context_replicate [OF assms] half_end_cdf_def scan_half_end letters_0 r)
  show "step (uniform_table half_end_cdf) (Extending (replicate k CHR ''a'') att) (0 # 0 # rs)
     = Some (if k + 1 < 256 then Return (capitalize (replicate (Suc k) CHR ''a'')) else Overflow, rs)"
    by (simp add: Let_def nrand_0 context_replicate [OF assms] half_end_cdf_def scan_half_end letters_0 r)
qed

lemma run_half_end:
  "3 \<le> k \<Longrightarrow> k \<le> 255 \<Longrightarrow>
   run (uniform_table half_end_cdf) (Extending (replicate k CHR ''a'') 0)
     (concat (replicate (255 - k) [1073741824, 0]) @ [0, 0]) = Some Buffer_overflow"
proof (induction "255 - k" arbitrary: k)
  case 0
  then have k: "k = 255" by simp
  have "step (uniform_table half_end_cdf) (Extending (replicate 255 CHR ''a'') 0) (0 # 0 # [])
      = Some (Overflow, [])"
    using step_half_end(2) [of 255 0 "[]"] by simp
  then show ?case unfolding k by (subst run.simps) simp
next
  case (Suc j)
  then have k: "k < 255" "2 \<le> k" "3 \<le> Suc k" "Suc k \<le> 255" "j = 255 - Suc k" by simp_all
  have "255 - k = Suc (255 - Suc k)" using k(1) by simp
  then have d: "concat (replicate (255 - k) [1073741824, 0 :: nat]) @ [0, 0]
      = 1073741824 # 0 # (concat (replicate (255 - Suc k) [1073741824, 0]) @ [0, 0])"
    by simp
  have s: "step (uniform_table half_end_cdf) (Extending (replicate k CHR ''a'') 0)
             (1073741824 # 0 # (concat (replicate (255 - Suc k) [1073741824, 0]) @ [0, 0]))
      = Some (Goto (Extending (replicate (Suc k) CHR ''a'') 0),
              concat (replicate (255 - Suc k) [1073741824, 0]) @ [0, 0])"
    using step_half_end(1) [OF k(2), of 0] k(1) by simp
  show ?case
    unfolding d
    by (subst run.simps)
      (simp only: s option.simps prod.simps action.simps Suc.hyps(1) [OF k(5) k(3) k(4)])
qed


lemma qualifying_index_Some:
  "qualifying_index n prob tab = Some i \<longleftrightarrow>
     i < n \<and> fless prob (tab ! i) \<and> (\<forall>j<i. \<not> fless prob (tab ! j))"
proof -
  have "(\<exists>k<n. fless prob (tab ! ([0..<n] ! k)) \<and> i = [0..<n] ! k
            \<and> (\<forall>j<k. \<not> fless prob (tab ! ([0..<n] ! j))))
      \<longleftrightarrow> i < n \<and> fless prob (tab ! i) \<and> (\<forall>j<i. \<not> fless prob (tab ! j))"
    by auto
  then show ?thesis by (simp add: qualifying_index_def find_Some_iff)
qed

lemma qualifying_index_None:
  "qualifying_index n prob tab = None \<longleftrightarrow> (\<forall>i<n. \<not> fless prob (tab ! i))"
  by (auto simp add: qualifying_index_def find_None_iff)

lemma continue_extending_no_return: "continue_extending ltr name attempts prob \<noteq> Return w"
  by (simp add: continue_extending_def split: option.splits)

lemma step_extending_return:
  assumes "length name < 255"
  shows "(\<exists>w. step ltr (Extending name attempts) (ra # rb # rs) = Some (Return w, rs))
     \<longleftrightarrow> rb mod 12 \<le> length name
          \<and> (\<exists>i<unat (num_letters (header ltr)). fless (nrand ra) (end_cdf (name_context ltr name) ! i))"
proof (cases "rb mod 12 \<le> length name")
  case False
  then show ?thesis unfolding step_extending by (simp add: continue_extending_no_return)
next
  case True
  show ?thesis
  proof (cases "qualifying_index (unat (num_letters (header ltr))) (nrand ra)
                  (end_cdf (name_context ltr name))")
    case None
    then have "\<forall>i<unat (num_letters (header ltr)). \<not> fless (nrand ra) (end_cdf (name_context ltr name) ! i)"
      by (simp add: qualifying_index_None)
    then show ?thesis
      unfolding step_extending using True None by (auto simp add: continue_extending_no_return)
  next
    case (Some i)
    then have "i < unat (num_letters (header ltr))"
      "fless (nrand ra) (end_cdf (name_context ltr name) ! i)"
      by (simp_all add: qualifying_index_Some)
    then show ?thesis
      unfolding step_extending using True Some assms by auto
  qed
qed


text \<open>
  Claim C8, as amended. When the end scan, if it was attempted, and the middle scan of
  \<open>triples[prev2][prev]\<close> both find no entry above \<open>prob\<close>, the word is restarted if it is
  shorter than 3 symbols without its last symbol or if this dead end is more than the 100th
  of the word; otherwise the last symbol is removed, the dead end is counted and the loop
  goes on. Every name that \<open>random_name\<close> returns has at least 3 symbols. On a table whose
  \<open>singles.start\<close> has no entry above zero the call does not return, whatever the random
  values are.
\<close>

theorem dead_end_restart_or_back_off:
  "let n = unat (num_letters (header ltr));
       prob = fdiv (float_of_int (int ra)) (float_of_int RAND_MAX);
       ctx = triples (data ltr) ! nat (idx (name ! (length name - 2)))
                                ! nat (idx (name ! (length name - 1)))
   in ((rb mod 12 \<le> length name \<longrightarrow> (\<forall>i<n. \<not> fless prob (end_cdf ctx ! i)))
         \<and> (\<forall>i<n. \<not> fless prob (middle ctx ! i))
        \<longrightarrow> step ltr (Extending name attempts) (ra # rb # rs)
              = Some (if length (butlast name) < 3 \<or> 100 < attempts + 1 then Goto Again
                      else Goto (Extending (butlast name) (attempts + 1)), rs))
      \<and> (random_name ltr draws = Some (Name w) \<longrightarrow> 3 \<le> length w)
      \<and> ((\<forall>i<n. \<not> fgt0 (start (singles (data ltr)) ! i)) \<longrightarrow> random_name ltr draws = None)"
proof -
  have a: "(rb mod 12 \<le> length name
              \<longrightarrow> (\<forall>i<unat (num_letters (header ltr)).
                     \<not> fless (nrand ra) (end_cdf (name_context ltr name) ! i)))
         \<and> (\<forall>i<unat (num_letters (header ltr)).
               \<not> fless (nrand ra) (middle (name_context ltr name) ! i))
        \<longrightarrow> step ltr (Extending name attempts) (ra # rb # rs)
              = Some (if length (butlast name) < 3 \<or> 100 < attempts + 1 then Goto Again
                      else Goto (Extending (butlast name) (attempts + 1)), rs)"
    unfolding step_extending continue_extending_def qualifying_index_None [symmetric] by auto
  have b: "random_name ltr draws = Some (Name w) \<longrightarrow> 3 \<le> length w"
    using run_name_length [of Again ltr draws w] by (auto simp add: random_name_def)
  have c: "(\<forall>i<unat (num_letters (header ltr)). \<not> fgt0 (start (singles (data ltr)) ! i))
      \<longrightarrow> random_name ltr draws = None"
    using never_returns [of ltr draws] by (simp add: random_name_def)
  show ?thesis
    using a b c unfolding Let_def nrand_def name_context_def by blast
qed


lemma context_table_simps:
  "unat (num_letters (header context_table)) = 28"
  "triples (data context_table) ! 0 ! 1 =
     \<lparr> start = zeros, middle = zeros, end_cdf = [0, 0x3F000000, 0x3F800000] @ replicate 25 0 \<rparr>"
  by (simp_all add: context_table_def new_ltrfile_def NUM_LETTERS_def)

lemma letters_2: "letters ! 2 = CHR ''c''"
  by (simp add: letters_def)

lemma toupper_a: "toupper CHR ''a'' = CHR ''A''"
  by (simp add: toupper_def char_of_65)



lemma normalize_list_zeros: "normalize_list dv acc (replicate k 0) = replicate k 0"
  by (induction k) (simp_all add: fgt0_def)

lemma normalize_zero_cdf: "normalize_cdf NUM_LETTERS zero_cdf = zero_cdf"
proof -
  have "normalize_array (length (replicate NUM_LETTERS (0 :: float))) (replicate NUM_LETTERS 0)
      = replicate NUM_LETTERS 0"
    unfolding normalize_array_list by (rule normalize_list_zeros)
  then have "normalize_array NUM_LETTERS (replicate NUM_LETTERS 0) = replicate NUM_LETTERS 0"
    by simp
  then show ?thesis by (simp add: normalize_cdf_arrays zero_cdf_def)
qed

lemma build_table_empty: "build_table [] = Some (new_ltrfile, [])"
proof -
  have wf: "wf_ltrdata (data new_ltrfile)" using wf_new_ltrfile by (simp add: wf_ltrfile_def)
  have "normalize_ltrdata NUM_LETTERS (data new_ltrfile) = data new_ltrfile"
    unfolding normalize_ltrdata_map [OF wf]
    by (simp add: new_ltrfile_def normalize_zero_cdf)
  moreover have "scan_tokens [] = []" by (rule scan_tokens_spaces) simp
  moreover have "unat (num_letters (header new_ltrfile)) = NUM_LETTERS"
    by (simp add: new_ltrfile_def NUM_LETTERS_def)
  ultimately show ?thesis by (simp add: build_table_def)
qed

theorem dead_end_restart_or_back_off_witness:
  "step (uniform_table start_only_cdf) (Extending ''aaa'' 0) [0, 0] = Some (Goto Again, [])
   \<and> step (uniform_table start_only_cdf) (Extending ''aaaa'' 0) [0, 0]
       = Some (Goto (Extending ''aaa'' 1), [])
   \<and> step (uniform_table start_only_cdf) (Extending ''aaaa'' 100) [0, 0] = Some (Goto Again, [])
   \<and> random_name (uniform_table unit_cdf) [0, 0, 0, 0, 0] = Some (Name ''Aaaa'')
   \<and> 3 \<le> length ''Aaaa''
   \<and> random_name new_ltrfile [3, 1, 4, 1, 5, 9, 2, 6] = None"
proof -
  have c3: "triples (data (uniform_table start_only_cdf)) ! nat (idx (''aaa'' ! (length ''aaa'' - 2)))
             ! nat (idx (''aaa'' ! (length ''aaa'' - 1))) = start_only_cdf"
    using context_uniform_table(1) [of start_only_cdf] by (simp only: name_context_def)
  have c4: "triples (data (uniform_table start_only_cdf)) ! nat (idx (''aaaa'' ! (length ''aaaa'' - 2)))
             ! nat (idx (''aaaa'' ! (length ''aaaa'' - 1))) = start_only_cdf"
    using context_uniform_table(2) [of start_only_cdf] by (simp only: name_context_def)
  have i0: "int 0 = 0" by simp
  note d = dead_end_restart_or_back_off [where ltr = "uniform_table start_only_cdf" and ra = 0
      and rb = 0 and rs = "[]", unfolded Let_def header_uniform_table nrand_zero]
  note d3 = d [where name = "''aaa''", unfolded c3]
  note d4 = d [where name = "''aaaa''", unfolded c4]
  have z: "(0 mod 12 \<le> k \<longrightarrow> (\<forall>i<28. \<not> fless 0 (end_cdf start_only_cdf ! i)))
         \<and> (\<forall>i<28. \<not> fless 0 (middle start_only_cdf ! i))" for k :: nat
    by (simp add: start_only_cdf_def zeros_def fless_0_one)
  have s1: "step (uniform_table start_only_cdf) (Extending ''aaa'' 0) [0, 0]
      = Some (if length (butlast ''aaa'') < 3 \<or> 100 < (0::nat) + 1 then Goto Again
              else Goto (Extending (butlast ''aaa'') (0 + 1)), [])"
    by (rule mp [OF conjunct1 [OF d3 [where attempts = 0]]]) (rule z)
  have s2: "step (uniform_table start_only_cdf) (Extending ''aaaa'' 0) [0, 0]
      = Some (if length (butlast ''aaaa'') < 3 \<or> 100 < (0::nat) + 1 then Goto Again
              else Goto (Extending (butlast ''aaaa'') (0 + 1)), [])"
    by (rule mp [OF conjunct1 [OF d4 [where attempts = 0]]]) (rule z)
  have s3: "step (uniform_table start_only_cdf) (Extending ''aaaa'' 100) [0, 0]
      = Some (if length (butlast ''aaaa'') < 3 \<or> 100 < (100::nat) + 1 then Goto Again
              else Goto (Extending (butlast ''aaaa'') (100 + 1)), [])"
    by (rule mp [OF conjunct1 [OF d4 [where attempts = 100]]]) (rule z)
  have e: "(if length (butlast ''aaa'') < 3 \<or> 100 < (0::nat) + 1 then Goto Again
              else Goto (Extending (butlast ''aaa'') (0 + 1))) = Goto Again"
    "(if length (butlast ''aaaa'') < 3 \<or> 100 < (0::nat) + 1 then Goto Again
              else Goto (Extending (butlast ''aaaa'') (0 + 1))) = Goto (Extending ''aaa'' 1)"
    "(if length (butlast ''aaaa'') < 3 \<or> 100 < (100::nat) + 1 then Goto Again
              else Goto (Extending (butlast ''aaaa'') (100 + 1))) = Goto Again"
    by simp_all
  have l: "3 \<le> length ''Aaaa''"
    using dead_end_restart_or_back_off [where ltr = "uniform_table unit_cdf"
        and draws = "[0, 0, 0, 0, 0]" and w = "''Aaaa''"] run_unit_table
    unfolding Let_def by blast
  have n: "random_name new_ltrfile [3, 1, 4, 1, 5, 9, 2, 6] = None"
  proof -
    have "\<forall>i<unat (num_letters (header new_ltrfile)). \<not> fgt0 (start (singles (data new_ltrfile)) ! i)"
      by (simp add: new_ltrfile_def zero_cdf_def NUM_LETTERS_def fgt0_def)
    then show ?thesis
      using dead_end_restart_or_back_off [where ltr = new_ltrfile
          and draws = "[3, 1, 4, 1, 5, 9, 2, 6]"]
      unfolding Let_def by blast
  qed
  show ?thesis
    using s1 s2 s3 l n run_unit_table unfolding e by blast
qed

text \<open>
  Claim C8 as stated has the sampler always return a string. From an empty training set
  \<open>build_ltr\<close> makes the all-zero table, on which the first scan never finds an index and
  \<open>random_name\<close> restarts for as long as random values are read. And with \<open>start\<close> = \<open>middle\<close> =
  1, 0, ... and an all-zero \<open>end\<close> in every context the word grows by one symbol in every
  turn of the loop, until the 257th symbol is written past the end of \<open>namebuf\<close>.
\<close>

theorem never_returns_counterexample:
  "build_table [] = Some (new_ltrfile, [])
   \<and> load_ltr (Some (write_ltr new_ltrfile)) = Inr new_ltrfile
   \<and> random_name new_ltrfile (replicate 1000 0) = None
   \<and> load_ltr (Some (write_ltr (uniform_table growing_cdf))) = Inr (uniform_table growing_cdf)
   \<and> random_name (uniform_table growing_cdf) (replicate 511 0) = Some Buffer_overflow"
proof -
  have z: "\<forall>i<unat (num_letters (header new_ltrfile)). \<not> fgt0 (start (singles (data new_ltrfile)) ! i)"
    by (simp add: new_ltrfile_def zero_cdf_def NUM_LETTERS_def fgt0_def)
  have a: "random_name new_ltrfile (replicate 1000 0) = None"
    unfolding random_name_def by (rule never_returns [OF z])
  have l: "load_ltr (Some (write_ltr (uniform_table growing_cdf))) = Inr (uniform_table growing_cdf)"
    by (rule wf_uniform_table [OF wf_example_cdfs(1)])
  have s: "start growing_cdf = unit_first" by (simp add: growing_cdf_def)
  have r: "''aaa'' = replicate 3 CHR ''a''" by (simp add: numeral_3_eq_3)
  have "run (uniform_table growing_cdf) (Extending (replicate 3 CHR ''a'') 0)
      (replicate (2 * (257 - 3)) 0) = Some Buffer_overflow"
    by (rule run_growing) simp_all
  moreover have "replicate 511 (0::nat) = 0 # 0 # 0 # replicate (2 * (257 - 3)) 0"
    by (simp add: replicate_append_same [symmetric] numeral_eq_Suc)
  ultimately have b: "random_name (uniform_table growing_cdf) (replicate 511 0) = Some Buffer_overflow"
    unfolding random_name_def using first_three [OF s] by (simp only: r)
  show ?thesis
    using build_table_empty load_new_ltrfile a l b by simp
qed

section \<open>Verification: repairing twice, in general\<close>

lemma finite_fbits:
  assumes "\<not> is_nan x" "\<not> is_inf x"
  shows "fbits x < 255 * 2 ^ 23"
proof -
  have e: "fexp x \<noteq> 255" using assms by (auto simp add: is_nan_def is_inf_def)
  have "fbits x < 2 ^ 31" by (rule fbits_less)
  then have "fbits x < 256 * 2 ^ 23" by simp
  then have "fbits x div 2 ^ 23 < 256" by (simp add: less_mult_imp_div_less)
  then have "fbits x div 2 ^ 23 < 255" using e by (simp add: fexp_def)
  then have "fbits x div 2 ^ 23 * 2 ^ 23 + fbits x mod 2 ^ 23 < 255 * 2 ^ 23"
    by (simp add: div_less_iff_less_mult)
  then show ?thesis by (simp only: div_mult_mod_eq)
qed

lemma fadd_zero_right:
  assumes "fne0 x" and "is_nan x \<longrightarrow> x = fnan"
  shows "fadd x 0 = x"
proof (cases "is_nan x")
  case True
  then show ?thesis using assms(2) by (simp add: fadd_def)
next
  case nn: False
  show ?thesis
  proof (cases "is_inf x")
    case True
    then show ?thesis using nn by (simp add: fadd_def finite_0)
  next
    case False
    have v: "valof x \<noteq> 0" using assms(1) nn by (simp add: fne0_def)
    have m: "0 \<le> fmag x" by (simp add: fmag_def mag_of_nonneg)
    have r: "fround (fsign x) (fmag x) = x"
      unfolding fmag_def fround_mag_of [OF finite_fbits [OF nn False]] by (rule mk_float_fbits)
    have "fadd x 0 = fround (valof x < 0) \<bar>valof x\<bar>"
      using nn False v by (simp add: fadd_def finite_0 Let_def)
    also have "\<dots> = fround (fsign x) (fmag x)"
      using v m by (cases "fsign x") (auto simp add: valof_def)
    finally show ?thesis by (simp only: r)
  qed
qed

lemma fzero_not_nan: "\<not> is_nan (fzero s)"
  by (simp add: fzero_def is_nan_def fexp_def)

lemma inf_not_nan: "is_inf x \<Longrightarrow> \<not> is_nan x"
  by (simp add: is_inf_def is_nan_def)

lemma fadd_canonical: "is_nan (fadd a b) \<longrightarrow> fadd a b = fnan"
proof (cases "is_nan a \<or> is_nan b")
  case True
  then show ?thesis by (simp add: fadd_def)
next
  case nn: False
  show ?thesis
  proof (cases "is_inf a")
    case True
    then have "fadd a b = fnan \<or> fadd a b = a" using nn by (simp add: fadd_def)
    then show ?thesis using inf_not_nan [OF True] by auto
  next
    case na: False
    show ?thesis
    proof (cases "is_inf b")
      case True
      then have "fadd a b = b" using nn na by (simp add: fadd_def)
      then show ?thesis using inf_not_nan [OF True] by simp
    next
      case False
      then have "fadd a b = fzero (fsign a \<and> fsign b)
          \<or> fadd a b = fround (valof a + valof b < 0) \<bar>valof a + valof b\<bar>"
        using nn na by (simp add: fadd_def Let_def)
      then show ?thesis using fzero_not_nan fround_not_nan by auto
    qed
  qed
qed

lemma repair_walk_canonical:
  "list_all (\<lambda>y. is_nan y \<longrightarrow> y = fnan) (fst (repair_walk acc off prev xs))"
proof (induction xs arbitrary: acc off prev)
  case Nil
  show ?case by simp
next
  case (Cons x xs)
  show ?case
  proof (cases "fne0 x")
    case True
    then show ?thesis using Cons.IH fadd_canonical by (simp add: Let_def split_beta)
  next
    case False
    then have "\<not> is_nan x" by (simp add: fne0_def)
    then show ?thesis using False Cons.IH by (simp add: split_beta)
  qed
qed

lemma repair_walk_all_zero:
  "list_all feq0 xs \<Longrightarrow> fst (repair_walk acc off prev xs) = xs"
  by (induction xs arbitrary: prev) (simp_all add: fne0_iff split_beta)

lemma repair_walk_run:
  assumes "list_all feq0 (dropWhile fne0 xs)" and "list_all (\<lambda>y. is_nan y \<longrightarrow> y = fnan) xs"
    and "prev = None \<or> (\<exists>p. prev = Some p \<and> fne0 p)"
  shows "fst (repair_walk acc 0 prev xs) = xs"
  using assms
proof (induction xs arbitrary: acc prev)
  case Nil
  show ?case by simp
next
  case (Cons x xs)
  show ?case
  proof (cases "fne0 x")
    case False
    then have "list_all feq0 (x # xs)" using Cons.prems(1) by simp
    then show ?thesis by (rule repair_walk_all_zero)
  next
    case True
    have off: "(case prev of None \<Rightarrow> 0 | Some p \<Rightarrow> if feq0 p then acc else 0) = (0 :: float)"
      using Cons.prems(3) by (auto simp add: fne0_iff)
    have a: "fadd x 0 = x" using True Cons.prems(2) by (intro fadd_zero_right) simp_all
    have "fst (repair_walk x 0 (Some x) xs) = xs"
      using Cons.prems(1,2) True by (intro Cons.IH) simp_all
    then show ?thesis using True by (simp add: Let_def split_beta off a)
  qed
qed

lemma repair_walk_gap_free:
  assumes "gap_free xs" and "list_all (\<lambda>y. is_nan y \<longrightarrow> y = fnan) xs"
  shows "fst (repair_walk 0 0 prev xs) = xs"
  using assms
proof (induction xs arbitrary: prev)
  case Nil
  show ?case by simp
next
  case (Cons x xs)
  show ?case
  proof (cases "fne0 x")
    case False
    then have z: "feq0 x" by (simp add: fne0_iff)
    then have "gap_free xs" using Cons.prems(1) by (simp add: gap_free_def)
    then have "fst (repair_walk 0 0 (Some x) xs) = xs"
      using Cons.prems(2) by (intro Cons.IH) simp_all
    then show ?thesis using False by (simp add: split_beta)
  next
    case True
    then have nz: "\<not> feq0 x" by (simp add: fne0_iff)
    have g: "list_all feq0 (dropWhile fne0 xs)"
      using Cons.prems(1) True nz by (simp add: gap_free_def)
    have off: "(case prev of None \<Rightarrow> 0 | Some p \<Rightarrow> if feq0 p then 0 else 0) = (0 :: float)"
      by (simp split: option.splits)
    have a: "fadd x 0 = x" using True Cons.prems(2) by (intro fadd_zero_right) simp_all
    have "fst (repair_walk x 0 (Some x) xs) = xs"
      using g Cons.prems(2) True by (intro repair_walk_run) simp_all
    then show ?thesis using True by (simp add: Let_def split_beta off a)
  qed
qed

lemma fix_ltr_unchanged:
  assumes "length (middle (singles (data t))) = unat (num_letters (header t))"
    and "length (end_cdf (singles (data t))) = unat (num_letters (header t))"
    and "(\<exists>x\<in>set (middle (singles (data t))). within_tolerance x)
         \<or> fst (repair_walk 0 0 None (middle (singles (data t)))) = middle (singles (data t))"
    and "(\<exists>x\<in>set (end_cdf (singles (data t))). within_tolerance x)
         \<or> fst (repair_walk 0 0 None (end_cdf (singles (data t)))) = end_cdf (singles (data t))"
  shows "fst (fix_ltr t) = t"
proof -
  have a: "(if \<forall>x\<in>set (middle (singles (data t))). \<not> within_tolerance x
            then fst (repair_walk 0 0 None (middle (singles (data t))))
            else middle (singles (data t))) = middle (singles (data t))"
    using assms(3) by auto
  have b: "(if \<forall>x\<in>set (end_cdf (singles (data t))). \<not> within_tolerance x
            then fst (repair_walk 0 0 None (end_cdf (singles (data t))))
            else end_cdf (singles (data t))) = end_cdf (singles (data t))"
    using assms(4) by auto
  show ?thesis
    unfolding fix_ltr_result [OF assms(1,2)] a b by simp
qed

lemma fix_ltr_settled:
  assumes l: "length (middle (singles (data t))) = unat (num_letters (header t))"
    "length (end_cdf (singles (data t))) = unat (num_letters (header t))"
  shows "settled (middle (singles (data (fst (fix_ltr t))))) \<Longrightarrow>
     (\<exists>x\<in>set (middle (singles (data (fst (fix_ltr t))))). within_tolerance x)
      \<or> fst (repair_walk 0 0 None (middle (singles (data (fst (fix_ltr t))))))
          = middle (singles (data (fst (fix_ltr t))))"
    and "settled (end_cdf (singles (data (fst (fix_ltr t))))) \<Longrightarrow>
     (\<exists>x\<in>set (end_cdf (singles (data (fst (fix_ltr t))))). within_tolerance x)
      \<or> fst (repair_walk 0 0 None (end_cdf (singles (data (fst (fix_ltr t))))))
          = end_cdf (singles (data (fst (fix_ltr t))))"
proof -
  have k: "(\<exists>x\<in>set ys. within_tolerance x) \<or> fst (repair_walk 0 0 None ys) = ys"
    if s: "settled ys"
      and y: "ys = (if \<forall>x\<in>set xs. \<not> within_tolerance x then fst (repair_walk 0 0 None xs) else xs)"
    for xs ys
  proof (cases "\<exists>x\<in>set ys. within_tolerance x")
    case True
    then show ?thesis by blast
  next
    case False
    then have g: "gap_free ys" using s by (simp add: settled_def list_ex_iff)
    have "\<forall>x\<in>set xs. \<not> within_tolerance x"
    proof (rule ccontr)
      assume n: "\<not> (\<forall>x\<in>set xs. \<not> within_tolerance x)"
      have "ys = xs" unfolding y by (rule if_not_P [OF n])
      then show False using n False by blast
    qed
    then have "ys = fst (repair_walk 0 0 None xs)" unfolding y by (rule if_P)
    then have "list_all (\<lambda>y. is_nan y \<longrightarrow> y = fnan) ys" by (simp only: repair_walk_canonical)
    from repair_walk_gap_free [OF g this] show ?thesis by blast
  qed
  have m: "middle (singles (data (fst (fix_ltr t))))
      = (if \<forall>x\<in>set (middle (singles (data t))). \<not> within_tolerance x
         then fst (repair_walk 0 0 None (middle (singles (data t))))
         else middle (singles (data t)))"
    and e: "end_cdf (singles (data (fst (fix_ltr t))))
      = (if \<forall>x\<in>set (end_cdf (singles (data t))). \<not> within_tolerance x
         then fst (repair_walk 0 0 None (end_cdf (singles (data t))))
         else end_cdf (singles (data t)))"
    unfolding fix_ltr_result [OF l] by simp_all
  show "settled (middle (singles (data (fst (fix_ltr t))))) \<Longrightarrow>
     (\<exists>x\<in>set (middle (singles (data (fst (fix_ltr t))))). within_tolerance x)
      \<or> fst (repair_walk 0 0 None (middle (singles (data (fst (fix_ltr t))))))
          = middle (singles (data (fst (fix_ltr t))))"
    by (rule k [OF _ m])
  show "settled (end_cdf (singles (data (fst (fix_ltr t))))) \<Longrightarrow>
     (\<exists>x\<in>set (end_cdf (singles (data (fst (fix_ltr t))))). within_tolerance x)
      \<or> fst (repair_walk 0 0 None (end_cdf (singles (data (fst (fix_ltr t))))))
          = end_cdf (singles (data (fst (fix_ltr t))))"
    by (rule k [OF _ e])
qed



lemma settled_examples:
  "settled climbing" "settled zeros" "settled ([0x3F000000, 0, 0x3F800000] @ replicate 25 0)"
  "settled unit_first" "list_ex within_tolerance unit_first"
  by (simp_all add: settled_def gap_free_def climbing_def zeros_def unit_first_def fne0_simps
      tol_simps dropWhile_replicate list_all_length)


section \<open>Verification: the middle counts\<close>

lemma middle_singles_bump_window:
  "middle (singles (bump_window At_middle w p d)) = bump_at (letter_at w p) (middle (singles d))"
  by (simp add: bump_window_def bump_triple_def bump_double_def bump_single_def bump_at_def)

lemma middle_doubles_bump_window:
  "i < length (doubles d) \<Longrightarrow>
   middle (doubles (bump_window At_middle w p d) ! i)
     = (if letter_at w p = i then bump_at (letter_at w (p + 1)) (middle (doubles d ! i))
        else middle (doubles d ! i))"
  by (simp add: bump_window_def bump_triple_def bump_double_def bump_single_def bump_at_def
      nth_list_update)

lemma middle_triples_bump_window:
  "i < length (triples d) \<Longrightarrow> j < length (triples d ! i) \<Longrightarrow>
   middle (triples (bump_window At_middle w p d) ! i ! j)
     = (if letter_at w p = i \<and> letter_at w (p + 1) = j
        then bump_at (letter_at w (p + 2)) (middle (triples d ! i ! j))
        else middle (triples d ! i ! j))"
  by (cases "letter_at w p = i"; cases "letter_at w (p + 1) = j")
    (simp_all add: bump_window_def bump_triple_def bump_double_def bump_single_def bump_at_def
      nth_list_update)

lemma length_nth_update: "length (xs[a := (xs ! a)[b := y]] ! i) = length (xs ! i)"
  by (cases "a < length xs"; cases "i = a") (simp_all add: list_update_beyond)

lemma lengths_bump_window:
  "length (doubles (bump_window pos w p d)) = length (doubles d)"
  "length (triples (bump_window pos w p d)) = length (triples d)"
  "length (triples (bump_window pos w p d) ! i) = length (triples d ! i)"
  by (simp_all add: bump_window_def bump_triple_def bump_double_def bump_single_def
      length_nth_update)

lemma fold_middle_singles:
  "middle (singles (fold (bump_window At_middle w) ps d))
     = fold (\<lambda>p. bump_at (letter_at w p)) ps (middle (singles d))"
  by (induction ps arbitrary: d) (simp_all add: middle_singles_bump_window)

lemma fold_lengths:
  "length (doubles (fold (bump_window pos w) ps d)) = length (doubles d)"
  "length (triples (fold (bump_window pos w) ps d)) = length (triples d)"
  "length (triples (fold (bump_window pos w) ps d) ! i) = length (triples d ! i)"
  by (induction ps arbitrary: d) (simp_all add: lengths_bump_window)

lemma fold_middle_doubles:
  "i < length (doubles d) \<Longrightarrow>
   middle (doubles (fold (bump_window At_middle w) ps d) ! i)
     = fold (\<lambda>p xs. if letter_at w p = i then bump_at (letter_at w (p + 1)) xs else xs) ps
         (middle (doubles d ! i))"
proof (induction ps arbitrary: d)
  case Nil
  show ?case by simp
next
  case (Cons p ps)
  have "i < length (doubles (bump_window At_middle w p d))"
    using Cons.prems by (simp add: lengths_bump_window)
  from Cons.IH [OF this] show ?case
    using Cons.prems by (simp add: middle_doubles_bump_window)
qed

lemma fold_middle_triples:
  "i < length (triples d) \<Longrightarrow> j < length (triples d ! i) \<Longrightarrow>
   middle (triples (fold (bump_window At_middle w) ps d) ! i ! j)
     = fold (\<lambda>p xs. if letter_at w p = i \<and> letter_at w (p + 1) = j
                     then bump_at (letter_at w (p + 2)) xs else xs) ps
         (middle (triples d ! i ! j))"
proof (induction ps arbitrary: d)
  case Nil
  show ?case by simp
next
  case (Cons p ps)
  have "i < length (triples (bump_window At_middle w p d))"
    "j < length (triples (bump_window At_middle w p d) ! i)"
    using Cons.prems by (simp_all add: lengths_bump_window)
  from Cons.IH [OF this] show ?case
    using Cons.prems by (simp add: middle_triples_bump_window)
qed

lemma map_eq_nth: "map f xs = map f ys \<Longrightarrow> i < length ys \<Longrightarrow> f (xs ! i) = f (ys ! i)"
  by (metis length_map nth_map)

lemma middles_start_end_nth:
  "i < length (doubles d) \<Longrightarrow>
     middle (doubles (bump_end w q (bump_window At_start w 0 d)) ! i) = middle (doubles d ! i)"
  "i < length (triples d) \<Longrightarrow> j < length (triples d ! i) \<Longrightarrow>
     middle (triples (bump_end w q (bump_window At_start w 0 d)) ! i ! j)
       = middle (triples d ! i ! j)"
  "length (doubles (bump_end w q (bump_window At_start w 0 d))) = length (doubles d)"
  "length (triples (bump_end w q (bump_window At_start w 0 d))) = length (triples d)"
  "length (triples (bump_end w q (bump_window At_start w 0 d)) ! i) = length (triples d ! i)"
proof -
  show l: "length (doubles (bump_end w q (bump_window At_start w 0 d))) = length (doubles d)"
    "length (triples (bump_end w q (bump_window At_start w 0 d))) = length (triples d)"
    "length (triples (bump_end w q (bump_window At_start w 0 d)) ! i) = length (triples d ! i)"
    by (simp_all add: bump_end_def bump_window_def bump_triple_def bump_double_def
        bump_single_def length_nth_update)
  show "i < length (doubles d) \<Longrightarrow>
     middle (doubles (bump_end w q (bump_window At_start w 0 d)) ! i) = middle (doubles d ! i)"
    by (rule map_eq_nth [OF middles_start_end(2)])
  assume i: "i < length (triples d)" and j: "j < length (triples d ! i)"
  have "map middle (triples (bump_end w q (bump_window At_start w 0 d)) ! i)
      = map middle (triples d ! i)"
    by (rule map_eq_nth [OF middles_start_end(3) i])
  from map_eq_nth [OF this j]
  show "middle (triples (bump_end w q (bump_window At_start w 0 d)) ! i ! j)
       = middle (triples d ! i ! j)" .
qed

lemma fadd_one_count:
  assumes "is_count x"
  shows "fadd_one x = fround False (of_nat (nat (int_of_float x) + 1))"
proof -
  from assms have n: "\<not> is_nan x" "\<not> is_inf x" by (simp_all add: is_count_def)
  define c where "c = int_of_float x"
  note cv = is_count_value [OF assms, folded c_def]
  define j where "j = nat c + 1"
  have j: "1 \<le> j" "j \<le> 2 ^ 24 + 1" using cv(1,2) by (simp_all add: j_def)
  have s: "valof x + 1 = of_nat j" using cv(1) by (simp add: cv(3) j_def)
  have s0: "(of_nat j :: rat) \<noteq> 0" "\<not> (of_nat j :: rat) < 0" "\<bar>of_nat j :: rat\<bar> = of_nat j"
    using j(1) by simp_all
  show ?thesis
    unfolding fadd_one_def Let_def s c_def [symmetric] j_def [symmetric]
    using n s0 by (simp add: double_of_nat [OF j])
qed

lemma fadd_one_increments:
  assumes "is_count x" and "int_of_float x < 2 ^ 24"
  shows "is_count (fadd_one x)" "int_of_float (fadd_one x) = int_of_float x + 1"
proof -
  show c: "is_count (fadd_one x)" by (rule is_count_fadd_one [OF assms(1)])
  define j where "j = nat (int_of_float x) + 1"
  have j: "1 \<le> j" "j \<le> 2 ^ 24"
    using assms(2) is_count_value(1) [OF assms(1)] by (simp_all add: j_def)
  have "fmag (fadd_one x) = of_nat j"
    unfolding fadd_one_count [OF assms(1)] j_def [symmetric] by (rule fround_count(2) [OF j])
  then have "(of_int (int_of_float (fadd_one x)) :: rat) = of_int (int j)"
    using is_count_value(4) [OF c] by simp
  then have "int_of_float (fadd_one x) = int j" by (simp only: of_int_eq_iff)
  then show "int_of_float (fadd_one x) = int_of_float x + 1"
    using is_count_value(1) [OF assms(1)] by (simp add: j_def)
qed

lemma count_name_middles:
  assumes "3 \<le> length w"
  shows "\<exists>d'. count_name w d = Some d'
     \<and> middle (singles d')
         = fold (\<lambda>p. bump_at (letter_at w p)) [1..<length w - 3] (middle (singles d))
     \<and> (\<forall>i<length (doubles d).
           middle (doubles d' ! i)
             = fold (\<lambda>p xs. if letter_at w p = i then bump_at (letter_at w (p + 1)) xs else xs)
                 [1..<length w - 3] (middle (doubles d ! i)))
     \<and> (\<forall>i<length (triples d). \<forall>j<length (triples d ! i).
           middle (triples d' ! i ! j)
             = fold (\<lambda>p xs. if letter_at w p = i \<and> letter_at w (p + 1) = j
                             then bump_at (letter_at w (p + 2)) xs else xs)
                 [1..<length w - 3] (middle (triples d ! i ! j)))
     \<and> (length w \<le> 4 \<longrightarrow>
           middle (singles d') = middle (singles d)
           \<and> (\<forall>i<length (doubles d). middle (doubles d' ! i) = middle (doubles d ! i))
           \<and> (\<forall>i<length (triples d). \<forall>j<length (triples d ! i).
                 middle (triples d' ! i ! j) = middle (triples d ! i ! j)))
     \<and> (is_count x \<and> int_of_float x < 2 ^ 24
          \<longrightarrow> is_count (fadd_one x) \<and> int_of_float (fadd_one x) = int_of_float x + 1)"
proof -
  define d0 where "d0 = bump_end w (length w - 1) (bump_window At_start w 0 d)"
  define d' where "d' = fold (bump_window At_middle w) [1..<length w - 3] d0"
  have c: "count_name w d = Some d'"
    using count_name_eq_spec [OF assms] by (simp add: count_name_spec_def d'_def d0_def)
  have s: "middle (singles d')
         = fold (\<lambda>p. bump_at (letter_at w p)) [1..<length w - 3] (middle (singles d))"
    unfolding d'_def fold_middle_singles by (simp add: d0_def middles_start_end(1))
  have db: "middle (doubles d' ! i)
             = fold (\<lambda>p xs. if letter_at w p = i then bump_at (letter_at w (p + 1)) xs else xs)
                 [1..<length w - 3] (middle (doubles d ! i))"
    if i: "i < length (doubles d)" for i
  proof -
    have "i < length (doubles d0)" using i by (simp add: d0_def middles_start_end_nth(3))
    from fold_middle_doubles [OF this] show ?thesis
      unfolding d'_def by (simp add: d0_def middles_start_end_nth(1) [OF i])
  qed
  have tr: "middle (triples d' ! i ! j)
             = fold (\<lambda>p xs. if letter_at w p = i \<and> letter_at w (p + 1) = j
                             then bump_at (letter_at w (p + 2)) xs else xs)
                 [1..<length w - 3] (middle (triples d ! i ! j))"
    if i: "i < length (triples d)" and j: "j < length (triples d ! i)" for i j
  proof -
    have "i < length (triples d0)" "j < length (triples d0 ! i)"
      using i j by (simp_all add: d0_def middles_start_end_nth(4,5))
    from fold_middle_triples [OF this] show ?thesis
      unfolding d'_def by (simp add: d0_def middles_start_end_nth(2) [OF i j])
  qed
  have e: "[1..<length w - 3] = []" if "length w \<le> 4"
    using that by simp
  have f: "is_count x \<and> int_of_float x < 2 ^ 24
          \<longrightarrow> is_count (fadd_one x) \<and> int_of_float (fadd_one x) = int_of_float x + 1"
    using fadd_one_increments [of x] by blast
  have short: "length w \<le> 4 \<longrightarrow>
           middle (singles d') = middle (singles d)
           \<and> (\<forall>i<length (doubles d). middle (doubles d' ! i) = middle (doubles d ! i))
           \<and> (\<forall>i<length (triples d). \<forall>j<length (triples d ! i).
                 middle (triples d' ! i ! j) = middle (triples d ! i ! j))"
    using s db tr e by simp
  show ?thesis
    using c s db tr short f by blast
qed


lemma fadd_one_0: "fadd_one 0 = 0x3F800000"
proof -
  have "mag_of 52 11 (round_mag 52 11 (of_nat 1)) = of_nat 1" by (rule double_of_nat) simp_all
  then have "mag_of 52 11 (round_mag 52 11 1) = 1" by simp
  then show ?thesis
    by (simp add: fadd_one_def finite_0 fround_one)
qed

lemma mag_two: "mag_of 23 8 1073741824 = 2"
  by (simp add: mag_of_def fmt_shift_def Let_def)

lemma fadd_one_1: "fadd_one 0x3F800000 = 0x40000000"
proof -
  have "mag_of 52 11 (round_mag 52 11 (of_nat 2)) = of_nat 2" by (rule double_of_nat) simp_all
  then have d: "mag_of 52 11 (round_mag 52 11 2) = 2" by simp
  have "fround False 2 = 0x40000000"
    using fround_mag_of [of 1073741824 False] by (simp add: mag_two mk_float_def)
  then show ?thesis
    by (simp add: fadd_one_def finite_one valof_one d)
qed

lemma new_ltrfile_middles:
  "middle (singles (data new_ltrfile)) = replicate 28 0"
  "length (doubles (data new_ltrfile)) = 28"
  "length (triples (data new_ltrfile)) = 28"
  "i < 28 \<Longrightarrow> middle (doubles (data new_ltrfile) ! i) = replicate 28 0"
  "i < 28 \<Longrightarrow> length (triples (data new_ltrfile) ! i) = 28"
  "i < 28 \<Longrightarrow> j < 28 \<Longrightarrow> middle (triples (data new_ltrfile) ! i ! j) = replicate 28 0"
  by (simp_all add: new_ltrfile_def zero_cdf_def NUM_LETTERS_def)

lemma letters_abcde:
  "letter_at ''abcde'' 1 = 1" "letter_at ''abcde'' 2 = 2" "letter_at ''abcde'' 3 = 3"
  "[1..<length ''abcde'' - 3] = [1]"
  "letter_at ''abcde'' (Suc 0) = 1" "letter_at ''abcde'' (Suc (Suc 0)) = 2"
  "letter_at ''abcde'' (Suc (Suc (Suc 0))) = 3"
  by (simp_all add: letter_at_def char_facts)

lemma letters_annabel:
  "letter_at ''annabel'' 1 = 13" "letter_at ''annabel'' 2 = 13" "letter_at ''annabel'' 3 = 0"
  "[1..<length ''annabel'' - 3] = [1, 2, 3]"
  "letter_at ''annabel'' (Suc 0) = 13" "letter_at ''annabel'' (Suc (Suc 0)) = 13"
  "letter_at ''annabel'' (Suc (Suc (Suc 0))) = 0"
  by (simp_all add: letter_at_def char_facts upt_rec)



section \<open>Verification: the arrays of a built table\<close>

lemma float_of_int_pos:
  assumes "1 \<le> S" "S \<le> 2 ^ 30"
  shows "\<not> is_nan (float_of_int S)" "\<not> is_inf (float_of_int S)" "\<not> fsign (float_of_int S)"
    "\<bar>valof (float_of_int S) - of_int S\<bar> \<le> of_int S / 2 ^ 24"
proof -
  have f: "float_of_int S = fround False (of_int S)"
    using assms(1) by (simp add: float_of_int_def)
  have "(1::rat) \<le> of_int S" using assms(1) by simp
  moreover have "(1::rat) / 2 ^ 126 \<le> 1" by simp
  ultimately have lo: "1 / 2 ^ 126 \<le> (of_int S :: rat)" by (rule order_trans [rotated])
  have "(of_int S :: rat) \<le> of_int (2 ^ 30)" using assms(2) by (simp only: of_int_le_iff)
  also have "\<dots> < 2 ^ 100" by simp
  finally have hi: "(of_int S :: rat) < 2 ^ 100" .
  from fround_normal [OF lo hi]
  show "\<not> is_nan (float_of_int S)" "\<not> is_inf (float_of_int S)" "\<not> fsign (float_of_int S)"
    unfolding f by blast+
  show "\<bar>valof (float_of_int S) - of_int S\<bar> \<le> of_int S / 2 ^ 24"
    unfolding f by (rule fround_error [OF lo hi])
qed

lemma fdiv_count:
  assumes x: "is_count x" "fgt0 x"
    and dv: "\<not> is_nan dv" "\<not> is_inf dv" "\<not> fsign dv"
    and F: "1 / 2 \<le> valof dv" "valof dv \<le> 2 ^ 31"
  shows "\<not> is_nan (fdiv x dv)" "\<not> is_inf (fdiv x dv)" "\<not> fsign (fdiv x dv)"
    "\<bar>valof (fdiv x dv) - of_int (int_of_float x) / valof dv\<bar>
       \<le> of_int (int_of_float x) / valof dv / 2 ^ 24"
    "1 / 2 ^ 31 \<le> of_int (int_of_float x) / valof dv"
    "of_int (int_of_float x) / valof dv \<le> 2 ^ 25"
proof -
  note cv = is_count_value [OF x(1)]
  from x(1) have nx: "\<not> is_nan x" "\<not> is_inf x" "\<not> fsign x" by (simp_all add: is_count_def)
  define c :: rat where "c = of_int (int_of_float x)"
  define F where "F = valof dv"
  have Fm: "fmag dv = F" using dv(3) by (simp add: F_def valof_def)
  have Fp: "0 < F" using F(1) unfolding F_def by linarith
  have c1: "1 \<le> c" using cv(5) x(2) unfolding c_def by simp
  have c2: "c \<le> 2 ^ 24"
  proof -
    have "(of_int (int_of_float x) :: rat) \<le> of_int (2 ^ 24)" using cv(2) by (simp only: of_int_le_iff)
    then show ?thesis by (simp add: c_def)
  qed
  have q: "fdiv x dv = fround False (c / F)"
    using nx dv Fp by (simp add: fdiv_def Fm cv(4) c_def)
  have lo31: "1 / 2 ^ 31 \<le> c / F"
  proof -
    have "1 / 2 ^ 31 * F \<le> 1 / 2 ^ 31 * 2 ^ 31"
      using F(2) unfolding F_def by (intro mult_left_mono) simp_all
    also have "\<dots> \<le> 1" by simp
    also have "\<dots> \<le> c" by (rule c1)
    finally show ?thesis using Fp by (simp add: pos_le_divide_eq)
  qed
  have "(1::rat) / 2 ^ 126 \<le> 1 / 2 ^ 31" by simp
  then have lo: "1 / 2 ^ 126 \<le> c / F" using lo31 by (rule order_trans)
  have hi': "c / F \<le> 2 ^ 25"
  proof -
    have "c \<le> 2 ^ 25 * (1 / 2)" using c2 by simp
    also have "\<dots> \<le> 2 ^ 25 * F" using F(1) unfolding F_def by (intro mult_left_mono) simp_all
    finally show ?thesis using Fp by (simp add: pos_divide_le_eq)
  qed
  then have hi: "c / F < 2 ^ 100"
  proof -
    have "(2::rat) ^ 25 < 2 ^ 100" by simp
    with hi' show ?thesis by (rule le_less_trans)
  qed
  from fround_normal [OF lo hi]
  show "\<not> is_nan (fdiv x dv)" "\<not> is_inf (fdiv x dv)" "\<not> fsign (fdiv x dv)"
    unfolding q by blast+
  show "\<bar>valof (fdiv x dv) - of_int (int_of_float x) / valof dv\<bar>
       \<le> of_int (int_of_float x) / valof dv / 2 ^ 24"
    unfolding q c_def [symmetric] F_def [symmetric] by (rule fround_error [OF lo hi])
  show "1 / 2 ^ 31 \<le> of_int (int_of_float x) / valof dv"
    "of_int (int_of_float x) / valof dv \<le> 2 ^ 25"
    using lo31 hi' unfolding c_def F_def by simp_all
qed

lemma fadd_pos:
  assumes q: "\<not> is_nan q" "\<not> is_inf q" "\<not> fsign q"
    and a: "\<not> is_nan acc" "\<not> is_inf acc" "\<not> fsign acc"
    and r: "1 / 2 ^ 126 \<le> valof q + valof acc" "valof q + valof acc < 2 ^ 100"
  shows "\<not> is_nan (fadd q acc)" "\<not> is_inf (fadd q acc)" "\<not> fsign (fadd q acc)"
    "\<bar>valof (fadd q acc) - (valof q + valof acc)\<bar> \<le> (valof q + valof acc) / 2 ^ 24"
    "valof acc \<le> valof (fadd q acc)"
proof -
  define s where "s = valof q + valof acc"
  have "(0::rat) < 1 / 2 ^ 126" by simp
  then have sp: "0 < s" using r(1) unfolding s_def by (rule less_le_trans)
  have f: "fadd q acc = fround False s"
    using q a sp by (simp add: fadd_def Let_def s_def [symmetric])
  note rs = r [folded s_def]
  from fround_normal [OF rs]
  show "\<not> is_nan (fadd q acc)" "\<not> is_inf (fadd q acc)" "\<not> fsign (fadd q acc)"
    unfolding f by blast+
  show "\<bar>valof (fadd q acc) - (valof q + valof acc)\<bar> \<le> (valof q + valof acc) / 2 ^ 24"
    unfolding f s_def [symmetric] by (rule fround_error [OF rs])
  have "0 \<le> valof q" by (rule valof_nonneg [OF q(3)])
  then have "valof acc \<le> s" by (simp add: s_def)
  from fround_ge [OF rs a(1,2) this]
  show "valof acc \<le> valof (fadd q acc)" unfolding f .
qed

lemma acc_step_bounds:
  fixes c T aF qF vF K :: rat
  assumes "0 \<le> c" "0 \<le> T" "0 \<le> K" "K \<le> 64"
    and "T * (1 - K / 2 ^ 22) \<le> aF" "aF \<le> T * (1 + K / 2 ^ 22)"
    and "c * (1 - 1 / 2 ^ 24) \<le> qF" "qF \<le> c * (1 + 1 / 2 ^ 24)"
    and "(qF + aF) * (1 - 1 / 2 ^ 24) \<le> vF" "vF \<le> (qF + aF) * (1 + 1 / 2 ^ 24)"
  shows "(T + c) * (1 - (K + 1) / 2 ^ 22) \<le> vF" "vF \<le> (T + c) * (1 + (K + 1) / 2 ^ 22)"
proof -
  have u1: "(1 + 1 / 2 ^ 24) * (1 + 1 / 2 ^ 24) \<le> 1 + (K + 1) / (2 ^ 22 :: rat)"
    using assms(3) by (simp add: field_simps)
  have u2: "(1 + K / 2 ^ 22) * (1 + 1 / 2 ^ 24) \<le> 1 + (K + 1) / (2 ^ 22 :: rat)"
    using assms(3,4) by (simp add: field_simps)
  have "vF \<le> (qF + aF) * (1 + 1 / 2 ^ 24)" by (rule assms(10))
  also have "\<dots> \<le> (c * (1 + 1 / 2 ^ 24) + T * (1 + K / 2 ^ 22)) * (1 + 1 / 2 ^ 24)"
    using assms(6,8) by (intro mult_right_mono add_mono) simp_all
  also have "\<dots> = c * ((1 + 1 / 2 ^ 24) * (1 + 1 / 2 ^ 24)) + T * ((1 + K / 2 ^ 22) * (1 + 1 / 2 ^ 24))"
    by (simp only: distrib_right mult.assoc)
  also have "\<dots> \<le> c * (1 + (K + 1) / 2 ^ 22) + T * (1 + (K + 1) / 2 ^ 22)"
    by (intro add_mono mult_left_mono u1 u2 assms(1,2))
  also have "\<dots> = (T + c) * (1 + (K + 1) / 2 ^ 22)"
    by (simp only: distrib_right add.commute)
  finally show "vF \<le> (T + c) * (1 + (K + 1) / 2 ^ 22)" .
  have l1: "1 - (K + 1) / (2 ^ 22 :: rat) \<le> (1 - 1 / 2 ^ 24) * (1 - 1 / 2 ^ 24)"
    using assms(3) by (simp add: field_simps)
  have l2: "1 - (K + 1) / (2 ^ 22 :: rat) \<le> (1 - K / 2 ^ 22) * (1 - 1 / 2 ^ 24)"
    using assms(3,4) by (simp add: field_simps)
  have "(T + c) * (1 - (K + 1) / 2 ^ 22) = c * (1 - (K + 1) / 2 ^ 22) + T * (1 - (K + 1) / 2 ^ 22)"
    by (simp only: distrib_right add.commute)
  also have "\<dots> \<le> c * ((1 - 1 / 2 ^ 24) * (1 - 1 / 2 ^ 24)) + T * ((1 - K / 2 ^ 22) * (1 - 1 / 2 ^ 24))"
    by (intro add_mono mult_left_mono l1 l2 assms(1,2))
  also have "\<dots> = (c * (1 - 1 / 2 ^ 24) + T * (1 - K / 2 ^ 22)) * (1 - 1 / 2 ^ 24)"
    by (simp only: distrib_right mult.assoc)
  also have "\<dots> \<le> (qF + aF) * (1 - 1 / 2 ^ 24)"
    using assms(5,7) by (intro mult_right_mono add_mono) simp_all
  also have "\<dots> \<le> vF" by (rule assms(9))
  finally show "(T + c) * (1 - (K + 1) / 2 ^ 22) \<le> vF" .
qed


lemma sum_counts_nonneg:
  "list_all is_count xs \<Longrightarrow> 0 \<le> sum_list (map int_of_float xs)"
  by (induction xs) (simp_all add: is_count_value(1) add_nonneg_nonneg)

lemma abs_rel_bounds:
  fixes V s F :: rat
  assumes "\<bar>V - s\<bar> \<le> s / 2 ^ 24" and "0 < F"
  shows "s * F * (1 - 1 / 2 ^ 24) \<le> V * F" "V * F \<le> s * F * (1 + 1 / 2 ^ 24)"
proof -
  have "s - s / 2 ^ 24 \<le> V" "V \<le> s + s / 2 ^ 24" using assms(1) by linarith+
  then have "(s - s / 2 ^ 24) * F \<le> V * F" "V * F \<le> (s + s / 2 ^ 24) * F"
    using assms(2) by (simp_all add: mult_right_mono)
  then show "s * F * (1 - 1 / 2 ^ 24) \<le> V * F" "V * F \<le> s * F * (1 + 1 / 2 ^ 24)"
    by (simp_all add: algebra_simps)
qed

lemma divisor_bounds:
  assumes "1 \<le> S" "S \<le> 2 ^ 30"
  shows "1 / 2 \<le> valof (float_of_int S)" "valof (float_of_int S) \<le> 2 ^ 31"
    "of_int S * (1 - 1 / 2 ^ 24) \<le> valof (float_of_int S)"
    "valof (float_of_int S) \<le> of_int S * (1 + 1 / 2 ^ 24)"
proof -
  define F where "F = valof (float_of_int S)"
  define R :: rat where "R = of_int S"
  have e: "\<bar>F - R\<bar> \<le> R / 2 ^ 24"
    unfolding F_def R_def by (rule float_of_int_pos(4) [OF assms])
  have R1: "1 \<le> R" using assms(1) by (simp add: R_def)
  have "R \<le> of_int (2 ^ 30)" unfolding R_def using assms(2) by (simp only: of_int_le_iff)
  then have R2: "R \<le> 2 ^ 30" by simp
  have a: "R - R / 2 ^ 24 \<le> F" "F \<le> R + R / 2 ^ 24" using e by linarith+
  show "of_int S * (1 - 1 / 2 ^ 24) \<le> valof (float_of_int S)"
    "valof (float_of_int S) \<le> of_int S * (1 + 1 / 2 ^ 24)"
    using a unfolding F_def R_def by (simp_all add: algebra_simps)
  show "1 / 2 \<le> valof (float_of_int S)" using a(1) R1 unfolding F_def by simp
  show "valof (float_of_int S) \<le> 2 ^ 31" using a(2) R2 unfolding F_def by simp
qed


lemma normalize_step_facts:
  fixes S T :: int
  assumes S: "1 \<le> S" "S \<le> 2 ^ 30"
    and x: "is_count x" "fgt0 x"
    and acc: "\<not> is_nan acc" "\<not> is_inf acc" "\<not> fsign acc"
    and lo: "of_int T * (1 - of_nat k / 2 ^ 22) \<le> valof acc * valof (float_of_int S)"
    and hi: "valof acc * valof (float_of_int S) \<le> of_int T * (1 + of_nat k / 2 ^ 22)"
    and T: "0 \<le> T" "T \<le> S" and k: "k < 64"
  shows "\<not> is_nan (fadd (fdiv x (float_of_int S)) acc)"
    "\<not> is_inf (fadd (fdiv x (float_of_int S)) acc)"
    "\<not> fsign (fadd (fdiv x (float_of_int S)) acc)"
    "fne0 (fadd (fdiv x (float_of_int S)) acc)"
    "valof acc \<le> valof (fadd (fdiv x (float_of_int S)) acc)"
    "of_int (T + int_of_float x) * (1 - of_nat (Suc k) / 2 ^ 22)
       \<le> valof (fadd (fdiv x (float_of_int S)) acc) * valof (float_of_int S)"
    "valof (fadd (fdiv x (float_of_int S)) acc) * valof (float_of_int S)
       \<le> of_int (T + int_of_float x) * (1 + of_nat (Suc k) / 2 ^ 22)"
proof -
  define dv where "dv = float_of_int S"
  define F where "F = valof dv"
  define q where "q = fdiv x dv"
  define v where "v = fadd q acc"
  define c :: rat where "c = of_int (int_of_float x)"
  define A where "A = valof acc"
  define Q where "Q = valof q"
  define V where "V = valof v"
  define K :: rat where "K = of_nat k"
  define R :: rat where "R = of_int T"
  note dvf = float_of_int_pos(1,2,3) [OF S, folded dv_def]
  note Fb = divisor_bounds(1,2) [OF S, folded dv_def, folded F_def]
  have Fp: "0 < F" using Fb(1) by linarith
  note qf = fdiv_count [OF x dvf Fb [unfolded F_def], folded q_def, folded Q_def c_def F_def]
  have c0: "0 \<le> c" using is_count_value(1) [OF x(1)] by (simp add: c_def)
  have K0: "0 \<le> K" "K \<le> 63" using k by (simp_all add: K_def)
  have R0: "0 \<le> R" using T(1) by (simp add: R_def)
  have "R \<le> of_int S" unfolding R_def using T(2) by (simp only: of_int_le_iff)
  also have "(of_int S :: rat) \<le> of_int (2 ^ 30)" using S(2) by (simp only: of_int_le_iff)
  finally have R1: "R \<le> 2 ^ 30" by simp
  have A0: "0 \<le> A" unfolding A_def by (rule valof_nonneg [OF acc(3)])
  have lo': "R * (1 - K / 2 ^ 22) \<le> A * F" and hi': "A * F \<le> R * (1 + K / 2 ^ 22)"
    using lo hi unfolding R_def K_def A_def F_def dv_def by simp_all
  have A1: "A \<le> 2 ^ 32"
  proof -
    have "1 + K / 2 ^ 22 \<le> 2" using K0 by simp
    then have "R * (1 + K / 2 ^ 22) \<le> R * 2" using R0 by (intro mult_left_mono)
    also have "\<dots> \<le> 2 ^ 30 * 2" using R1 by simp
    finally have "A * F \<le> 2 ^ 31" using hi' by simp
    moreover have "A * (1 / 2) \<le> A * F" using Fb(1) A0 by (intro mult_left_mono)
    ultimately show ?thesis by simp
  qed
  have Qb: "c / F - c / F / 2 ^ 24 \<le> Q" "Q \<le> c / F + c / F / 2 ^ 24"
    using qf(4) by linarith+
  have Q0: "1 / 2 ^ 32 \<le> Q"
  proof -
    have "(1 / 2 ^ 32 :: rat) \<le> 1 / 2 ^ 31 * (1 - 1 / 2 ^ 24)" by simp
    also have "\<dots> \<le> c / F * (1 - 1 / 2 ^ 24)" using qf(5) by (intro mult_right_mono) simp_all
    also have "\<dots> = c / F - c / F / 2 ^ 24" by (simp add: algebra_simps)
    finally show ?thesis using Qb(1) by linarith
  qed
  have Q1: "Q \<le> 2 ^ 26"
  proof -
    have "c / F + c / F / 2 ^ 24 = c / F * (1 + 1 / 2 ^ 24)" by (simp add: algebra_simps)
    also have "\<dots> \<le> 2 ^ 25 * (1 + 1 / 2 ^ 24)" using qf(6) by (intro mult_right_mono) simp_all
    also have "\<dots> \<le> 2 ^ 26" by simp
    finally show ?thesis using Qb(2) by linarith
  qed
  have r1: "1 / 2 ^ 126 \<le> Q + A"
  proof -
    have "(1 / 2 ^ 126 :: rat) \<le> 1 / 2 ^ 32" by simp
    then show ?thesis using Q0 A0 by linarith
  qed
  have r2: "Q + A < 2 ^ 100"
  proof -
    have "Q + A \<le> 2 ^ 26 + 2 ^ 32" using Q1 A1 by linarith
    also have "\<dots> < (2 ^ 100 :: rat)" by simp
    finally show ?thesis .
  qed
  note vf = fadd_pos [OF qf(1,2,3) acc r1 [unfolded Q_def A_def] r2 [unfolded Q_def A_def],
      folded v_def, folded V_def Q_def A_def]
  have Vp: "0 < V"
  proof -
    have "Q + A - (Q + A) / 2 ^ 24 \<le> V" using vf(4) by linarith
    moreover have "0 < Q + A - (Q + A) / 2 ^ 24"
    proof -
      have "(0::rat) < 1 / 2 ^ 32" by simp
      then have "0 < Q + A" using Q0 A0 by linarith
      then show ?thesis by (simp add: field_simps)
    qed
    ultimately show ?thesis by linarith
  qed
  have cF: "c / F * F = c" using Fp by simp
  note qb = abs_rel_bounds [OF qf(4) Fp, unfolded cF]
  have sF: "(Q + A) * F = Q * F + A * F" by (simp add: algebra_simps)
  note vb = abs_rel_bounds [OF vf(4) Fp, unfolded sF]
  have K64: "K \<le> 64" using K0(2) by simp
  note st = acc_step_bounds [OF c0 R0 K0(1) K64 lo' hi' qb vb]
  have cast: "(of_int (T + int_of_float x) :: rat) = R + c" "(of_nat (Suc k) :: rat) = K + 1"
    by (simp_all add: R_def c_def K_def)
  show "\<not> is_nan (fadd (fdiv x (float_of_int S)) acc)"
    "\<not> is_inf (fadd (fdiv x (float_of_int S)) acc)"
    "\<not> fsign (fadd (fdiv x (float_of_int S)) acc)"
    using vf(1,2,3) unfolding v_def q_def dv_def by simp_all
  show "fne0 (fadd (fdiv x (float_of_int S)) acc)"
    using Vp unfolding V_def v_def q_def dv_def by (simp add: fne0_def)
  show "valof acc \<le> valof (fadd (fdiv x (float_of_int S)) acc)"
    using vf(5) unfolding V_def A_def v_def q_def dv_def .
  show "of_int (T + int_of_float x) * (1 - of_nat (Suc k) / 2 ^ 22)
       \<le> valof (fadd (fdiv x (float_of_int S)) acc) * valof (float_of_int S)"
    unfolding cast using st(1) unfolding V_def F_def v_def q_def dv_def .
  show "valof (fadd (fdiv x (float_of_int S)) acc) * valof (float_of_int S)
       \<le> of_int (T + int_of_float x) * (1 + of_nat (Suc k) / 2 ^ 22)"
    unfolding cast using st(2) unfolding V_def F_def v_def q_def dv_def .
qed


lemma fle_trans: "fle a b \<Longrightarrow> fle b c \<Longrightarrow> fle a c"
  by (auto simp add: fle_def)

lemma normalize_list_bounds:
  fixes S T :: int
  assumes S: "1 \<le> S" "S \<le> 2 ^ 30"
  shows "list_all is_count xs \<Longrightarrow> \<not> is_nan acc \<Longrightarrow> \<not> is_inf acc \<Longrightarrow> \<not> fsign acc \<Longrightarrow>
     of_int T * (1 - of_nat k / 2 ^ 22) \<le> valof acc * valof (float_of_int S) \<Longrightarrow>
     valof acc * valof (float_of_int S) \<le> of_int T * (1 + of_nat k / 2 ^ 22) \<Longrightarrow>
     0 \<le> T \<Longrightarrow> T + sum_list (map int_of_float xs) = S \<Longrightarrow> k + length xs \<le> 64 \<Longrightarrow>
     list_all (fle acc) (filter fne0 (normalize_list (float_of_int S) acc xs))
     \<and> sorted_wrt fle (filter fne0 (normalize_list (float_of_int S) acc xs))
     \<and> (filter fne0 (normalize_list (float_of_int S) acc xs) = []
          \<longleftrightarrow> sum_list (map int_of_float xs) = 0)
     \<and> (filter fne0 (normalize_list (float_of_int S) acc xs) \<noteq> [] \<longrightarrow>
          \<not> is_nan (last (filter fne0 (normalize_list (float_of_int S) acc xs)))
          \<and> of_int S * (1 - 64 / 2 ^ 22)
               \<le> valof (last (filter fne0 (normalize_list (float_of_int S) acc xs)))
                    * valof (float_of_int S)
          \<and> valof (last (filter fne0 (normalize_list (float_of_int S) acc xs)))
               * valof (float_of_int S) \<le> of_int S * (1 + 64 / 2 ^ 22))"
proof (induction xs arbitrary: acc T k)
  case Nil
  then show ?case by simp
next
  case (Cons x xs)
  from Cons.prems(1) have x: "is_count x" and xs: "list_all is_count xs" by simp_all
  note cv = is_count_value [OF x]
  have sn: "0 \<le> sum_list (map int_of_float xs)" by (rule sum_counts_nonneg [OF xs])
  show ?case
  proof (cases "fgt0 x")
    case False
    then have c0: "int_of_float x = 0" using cv(1,5) by simp
    have nz: "\<not> fne0 x" using False cv(5,6) by simp
    have t: "T + sum_list (map int_of_float xs) = S" using Cons.prems(8) c0 by simp
    have k: "k + length xs \<le> 64" using Cons.prems(9) by simp
    from Cons.IH [OF xs Cons.prems(2,3,4,5,6,7) t k]
    show ?thesis using False nz c0 by simp
  next
    case True
    define v where "v = fadd (fdiv x (float_of_int S)) acc"
    have c1: "1 \<le> int_of_float x" using True cv(5) by simp
    have TS: "T \<le> S" using Cons.prems(8) sn c1 by simp
    have k: "k < 64" using Cons.prems(9) by simp
    note f = normalize_step_facts [OF S x True Cons.prems(2,3,4,5,6,7) TS k, folded v_def]
    have t: "T + int_of_float x + sum_list (map int_of_float xs) = S"
      using Cons.prems(8) by simp
    have k': "Suc k + length xs \<le> 64" using Cons.prems(9) by simp
    have T0: "0 \<le> T + int_of_float x" using Cons.prems(7) c1 by simp
    define nz where "nz = filter fne0 (normalize_list (float_of_int S) v xs)"
    note ih = Cons.IH [OF xs f(1,2,3,6,7) T0 t k', folded nz_def]
    have e: "filter fne0 (normalize_list (float_of_int S) acc (x # xs)) = v # nz"
      using True f(4) by (simp add: Let_def v_def [symmetric] nz_def)
    have av: "fle acc v" using Cons.prems(2) f(1,5) by (simp add: fle_def)
    have a1: "list_all (fle acc) (v # nz)"
    proof -
      have "list_all (fle acc) nz"
        using ih av by (auto simp add: list_all_iff intro: fle_trans)
      then show ?thesis using av by simp
    qed
    have a2: "sorted_wrt fle (v # nz)"
      using ih by (simp add: list_all_iff)
    have a3: "(v # nz = []) \<longleftrightarrow> sum_list (map int_of_float (x # xs)) = 0"
      using sn c1 by simp
    have a4: "\<not> is_nan (last (v # nz))
          \<and> of_int S * (1 - 64 / 2 ^ 22) \<le> valof (last (v # nz)) * valof (float_of_int S)
          \<and> valof (last (v # nz)) * valof (float_of_int S) \<le> of_int S * (1 + 64 / 2 ^ 22)"
    proof (cases "nz = []")
      case False
      then show ?thesis using ih by simp
    next
      case True
      then have "sum_list (map int_of_float xs) = 0" using ih by simp
      then have TS': "T + int_of_float x = S" using t by simp
      define R :: rat where "R = of_int S"
      have R0: "0 \<le> R" using S(1) by (simp add: R_def)
      have K: "(of_nat (Suc k) :: rat) \<le> 64" using k by simp
      have "R * (1 - 64 / 2 ^ 22) \<le> R * (1 - of_nat (Suc k) / 2 ^ 22)"
        using K R0 by (intro mult_left_mono) (simp_all add: divide_right_mono)
      then have l: "R * (1 - 64 / 2 ^ 22) \<le> valof v * valof (float_of_int S)"
        using f(6) unfolding TS' R_def by (rule order_trans)
      have "R * (1 + of_nat (Suc k) / 2 ^ 22) \<le> R * (1 + 64 / 2 ^ 22)"
        using K R0 by (intro mult_left_mono) (simp_all add: divide_right_mono)
      with f(7) have u: "valof v * valof (float_of_int S) \<le> R * (1 + 64 / 2 ^ 22)"
        unfolding TS' R_def by (rule order_trans)
      show ?thesis using True f(1) l u by (simp add: R_def)
    qed
    show ?thesis unfolding e using a1 a2 a3 a4 by simp
  qed
qed


lemma sum_counts_zero:
  "list_all is_count xs \<Longrightarrow> sum_list (map int_of_float xs) = 0 \<Longrightarrow>
   list_all (\<lambda>x. \<not> fgt0 x) xs \<and> list_all feq0 xs"
proof (induction xs)
  case Nil
  show ?case by simp
next
  case (Cons x xs)
  from Cons.prems(1) have x: "is_count x" and xs: "list_all is_count xs" by simp_all
  note cv = is_count_value [OF x]
  have sn: "0 \<le> sum_list (map int_of_float xs)" by (rule sum_counts_nonneg [OF xs])
  have c0: "int_of_float x = 0" and s0: "sum_list (map int_of_float xs) = 0"
    using Cons.prems(2) cv(1) sn by simp_all
  have "\<not> fgt0 x" "\<not> fne0 x" using cv(5,6) c0 by simp_all
  then show ?case using Cons.IH [OF xs s0] by (simp add: fne0_iff)
qed

lemma sum_counts_le:
  "list_all is_count xs \<Longrightarrow> sum_list (map int_of_float xs) \<le> int (length xs) * 2 ^ 24"
proof (induction xs)
  case Nil
  show ?case by simp
next
  case (Cons x xs)
  from Cons.prems have x: "is_count x" and xs: "list_all is_count xs" by simp_all
  show ?case using Cons.IH [OF xs] is_count_value(2) [OF x] by (simp add: algebra_simps)
qed

lemma normalize_list_no_count:
  "list_all (\<lambda>x. \<not> fgt0 x) xs \<Longrightarrow> normalize_list dv acc xs = xs"
  by (induction xs) simp_all

lemma tolerance_of_bounds:
  fixes Z F R :: rat
  assumes R: "1 \<le> R"
    and F: "R * (1 - 1 / 2 ^ 24) \<le> F" "F \<le> R * (1 + 1 / 2 ^ 24)"
    and Z: "R * (1 - 64 / 2 ^ 22) \<le> Z * F" "Z * F \<le> R * (1 + 64 / 2 ^ 22)"
  shows "9999 / 10000 \<le> Z" "Z \<le> 10001 / 10000"
proof -
  have Rp: "0 < R" using R by linarith
  have "0 < R * (1 - 1 / 2 ^ 24)" using Rp by simp
  then have Fp: "0 < F" using F(1) by linarith
  have "0 < R * (1 - 64 / 2 ^ 22)" using Rp by simp
  then have "0 < Z * F" using Z(1) by linarith
  then have Zp: "0 < Z" using Fp by (simp add: zero_less_mult_iff)
  have "Z * (R * (1 - 1 / 2 ^ 24)) \<le> Z * F" using F(1) Zp by (intro mult_left_mono) simp_all
  then have "R * (Z * (1 - 1 / 2 ^ 24)) \<le> R * (1 + 64 / 2 ^ 22)"
    using Z(2) by (simp add: mult.left_commute mult.assoc)
  then have "Z * (1 - 1 / 2 ^ 24) \<le> 1 + 64 / 2 ^ 22"
    using Rp by (simp only: mult_le_cancel_left_pos)
  then show "Z \<le> 10001 / 10000" by (simp add: field_simps)
  have "Z * F \<le> Z * (R * (1 + 1 / 2 ^ 24))" using F(2) Zp by (intro mult_left_mono) simp_all
  then have "R * (1 - 64 / 2 ^ 22) \<le> R * (Z * (1 + 1 / 2 ^ 24))"
    using Z(1) by (simp add: mult.left_commute mult.assoc)
  then have "1 - 64 / 2 ^ 22 \<le> Z * (1 + 1 / 2 ^ 24)"
    using Rp by (simp only: mult_le_cancel_left_pos)
  then show "9999 / 10000 \<le> Z" by (simp add: field_simps)
qed

lemma cumulative_normalize_array:
  assumes xs: "list_all is_count xs" and l: "length xs = NUM_LETTERS"
  shows "cumulative (normalize_array NUM_LETTERS xs)"
proof -
  define S where "S = sum_list (map int_of_float xs)"
  have n: "normalize_array NUM_LETTERS xs = normalize_list (float_of_int S) 0 xs"
    using normalize_array_list [of xs] l by (simp add: S_def)
  have S0: "0 \<le> S" unfolding S_def by (rule sum_counts_nonneg [OF xs])
  show ?thesis
  proof (cases "S = 0")
    case True
    from sum_counts_zero [OF xs True [unfolded S_def]]
    have z: "list_all (\<lambda>x. \<not> fgt0 x) xs" "list_all feq0 xs" by simp_all
    have "filter fne0 xs = []" using z(2) by (simp add: filter_empty_conv list_all_iff fne0_iff)
    then show ?thesis
      unfolding n normalize_list_no_count [OF z(1)] by (simp add: cumulative_def)
  next
    case False
    then have S1: "1 \<le> S" using S0 by simp
    have "S \<le> int (length xs) * 2 ^ 24" unfolding S_def by (rule sum_counts_le [OF xs])
    then have S2: "S \<le> 2 ^ 30" using l by (simp add: NUM_LETTERS_def)
    define nz where "nz = filter fne0 (normalize_list (float_of_int S) 0 xs)"
    have b: "of_int 0 * (1 - of_nat 0 / 2 ^ 22) \<le> valof 0 * valof (float_of_int S)"
      "valof 0 * valof (float_of_int S) \<le> of_int 0 * (1 + of_nat 0 / 2 ^ 22)"
      by simp_all
    have t: "(0::int) \<le> 0" "0 + sum_list (map int_of_float xs) = S" "0 + length xs \<le> 64"
      using l by (simp_all add: S_def NUM_LETTERS_def)
    note r = normalize_list_bounds [OF S1 S2 xs finite_0 fsign_0 b t, folded nz_def]
    have ne: "nz \<noteq> []" using r False by (simp add: S_def)
    have R: "(1::rat) \<le> of_int S" using S1 by simp
    note tb = tolerance_of_bounds [OF R divisor_bounds(3,4) [OF S1 S2]]
    have "within_tolerance (last nz)"
      using r ne tb [of "valof (last nz)"] by (simp add: within_tolerance_def)
    then show ?thesis
      unfolding n cumulative_def nz_def [symmetric] using r by simp
  qed
qed

lemma zero_class_normalize_array:
  assumes xs: "list_all is_count xs" and l: "length xs = n"
  shows "zero_class_untouched n xs"
proof -
  have "list_all (\<lambda>x. \<not> fgt0 x) xs \<and> list_all feq0 xs \<and> normalize_array n xs = xs"
    if "sum_counts n xs = 0"
  proof -
    have s: "sum_list (map int_of_float xs) = 0"
      using that sum_counts_sum_list [of xs] l by simp
    note z = sum_counts_zero [OF xs s]
    have "normalize_array n xs = xs"
      using normalize_array_list [of xs] l normalize_list_no_count [of xs] z by simp
    then show ?thesis using z by simp
  qed
  then show ?thesis by (simp add: zero_class_untouched_def)
qed

lemma sums_fit_int_counts:
  assumes xs: "list_all is_count xs" and l: "length xs = NUM_LETTERS"
  shows "sums_fit_int NUM_LETTERS xs"
proof -
  have s: "sum_counts NUM_LETTERS xs = sum_list (map int_of_float xs)"
    using sum_counts_sum_list [of xs] l by simp
  have "sum_list (map int_of_float xs) \<le> int (length xs) * 2 ^ 24" by (rule sum_counts_le [OF xs])
  also have "\<dots> < 2 ^ 31" by (simp add: l NUM_LETTERS_def)
  finally show ?thesis
    using sum_counts_nonneg [OF xs] by (simp add: sums_fit_int_def s)
qed

lemma normalize_cdf_cumulative:
  assumes "wf_cdf c" and "each_array (list_all is_count) c"
  shows "each_array cumulative (normalize_arrays NUM_LETTERS c)"
    and "each_array (zero_class_untouched NUM_LETTERS) c"
    and "each_array (sums_fit_int NUM_LETTERS) c"
  using assms
  by (simp_all add: each_array_def normalize_arrays_def wf_cdf_def cumulative_normalize_array
      zero_class_normalize_array sums_fit_int_counts)

lemma normalize_cdf_arrays': "normalize_cdf n = normalize_arrays n"
  by (rule ext) (simp add: normalize_cdf_arrays normalize_arrays_def)

lemma normalize_ltrdata_cumulative:
  assumes wf: "wf_ltrdata d" and c: "each_cdf (each_array (list_all is_count)) d"
  shows "normalize_ltrdata NUM_LETTERS d =
     \<lparr> singles = normalize_arrays NUM_LETTERS (singles d),
       doubles = map (normalize_arrays NUM_LETTERS) (doubles d),
       triples = map (map (normalize_arrays NUM_LETTERS)) (triples d) \<rparr>"
    and "each_cdf (each_array cumulative) (normalize_ltrdata NUM_LETTERS d)"
    and "each_cdf (each_array (zero_class_untouched NUM_LETTERS)) d"
    and "each_cdf (each_array (sums_fit_int NUM_LETTERS)) d"
proof -
  show m: "normalize_ltrdata NUM_LETTERS d =
     \<lparr> singles = normalize_arrays NUM_LETTERS (singles d),
       doubles = map (normalize_arrays NUM_LETTERS) (doubles d),
       triples = map (map (normalize_arrays NUM_LETTERS)) (triples d) \<rparr>"
    unfolding normalize_ltrdata_map [OF wf] normalize_cdf_arrays' ..
  have s: "wf_cdf (singles d)" "each_array (list_all is_count) (singles d)"
    using wf c by (simp_all add: wf_ltrdata_def each_cdf_def)
  have db: "wf_cdf x \<and> each_array (list_all is_count) x" if "x \<in> set (doubles d)" for x
    using wf c that by (simp add: wf_ltrdata_def wf_row_def each_cdf_def list_all_iff)
  have tr: "wf_cdf x \<and> each_array (list_all is_count) x"
    if "row \<in> set (triples d)" "x \<in> set row" for row x
    using wf c that by (simp add: wf_ltrdata_def wf_row_def each_cdf_def list_all_iff)
  show "each_cdf (each_array cumulative) (normalize_ltrdata NUM_LETTERS d)"
    unfolding m using s db tr
    by (simp add: each_cdf_def list_all_iff normalize_cdf_cumulative(1))
  show "each_cdf (each_array (zero_class_untouched NUM_LETTERS)) d"
    using s db tr by (simp add: each_cdf_def list_all_iff normalize_cdf_cumulative(2))
  show "each_cdf (each_array (sums_fit_int NUM_LETTERS)) d"
    using s db tr by (simp add: each_cdf_def list_all_iff normalize_cdf_cumulative(3))
qed

lemma build_table_cumulative:
  "\<exists>d out. build_loop (scan_tokens inp) (data new_ltrfile) [] = Some (d, out)
      \<and> build_table inp = Some (new_ltrfile\<lparr> data := normalize_ltrdata NUM_LETTERS d \<rparr>, out)
      \<and> wf_ltrdata d
      \<and> normalize_ltrdata NUM_LETTERS d =
          \<lparr> singles = normalize_arrays NUM_LETTERS (singles d),
            doubles = map (normalize_arrays NUM_LETTERS) (doubles d),
            triples = map (map (normalize_arrays NUM_LETTERS)) (triples d) \<rparr>
      \<and> each_cdf (each_array cumulative) (normalize_ltrdata NUM_LETTERS d)
      \<and> each_cdf (each_array (zero_class_untouched NUM_LETTERS)) d
      \<and> each_cdf (each_array (sums_fit_int NUM_LETTERS)) d"
proof -
  have wf: "wf_ltrdata (data new_ltrfile)"
    using wf_new_ltrfile by (simp add: wf_ltrfile_def)
  from build_loop_total [OF wf, of "scan_tokens inp" "[]"]
  obtain d out where b: "build_loop (scan_tokens inp) (data new_ltrfile) [] = Some (d, out)"
    and d: "wf_ltrdata d" by blast
  have c: "each_cdf (each_array (list_all is_count)) d"
    by (rule counts_build_loop [OF counts_new_ltrfile b])
  have n: "unat (num_letters (header new_ltrfile)) = NUM_LETTERS"
    by (simp add: new_ltrfile_def NUM_LETTERS_def)
  have t: "build_table inp = Some (new_ltrfile\<lparr> data := normalize_ltrdata NUM_LETTERS d \<rparr>, out)"
    by (simp add: build_table_def b n)
  show ?thesis
    using b t d normalize_ltrdata_cumulative [OF d c] by blast
qed



lemma start_singles_bump:
  "start (singles (bump_window At_start w p d)) = bump_at (letter_at w p) (start (singles d))"
  "start (singles (bump_window At_middle w p d)) = start (singles d)"
  "start (singles (bump_end w q d)) = start (singles d)"
  by (simp_all add: bump_window_def bump_end_def bump_triple_def bump_double_def bump_single_def
      bump_at_def)

lemma start_singles_fold:
  "start (singles (fold (bump_window At_middle w) ps d)) = start (singles d)"
  by (induction ps arbitrary: d) (simp_all add: start_singles_bump)

lemma start_singles_count_name_spec:
  "start (singles (count_name_spec w d)) = bump_at (letter_at w 0) (start (singles d))"
  by (simp add: count_name_spec_def start_singles_fold start_singles_bump)

lemma scan_abc_cbc: "scan_tokens ''abc cbc'' = [''abc'', ''cbc'']"
proof -
  have "scan_tokens ([] @ ''abc'' @ '' cbc'') = ''abc'' # scan_tokens '' cbc''"
    by (rule scan_tokens_step) (simp_all add: char_facts)
  moreover have "scan_tokens ('' '' @ ''cbc'' @ []) = ''cbc'' # scan_tokens []"
    by (rule scan_tokens_step) (simp_all add: char_facts)
  moreover have "scan_tokens [] = []" by (rule scan_tokens_spaces) simp
  ultimately show ?thesis by simp
qed

lemma clean_abc_cbc:
  "clean_spec ''abc'' = ''abc''" "dropped_spec ''abc'' = []"
  "clean_spec ''cbc'' = ''cbc''" "dropped_spec ''cbc'' = []"
  by (simp_all add: clean_spec_def dropped_spec_def char_facts)

lemma build_loop_abc_cbc:
  "build_loop [''abc'', ''cbc''] (data new_ltrfile) []
     = Some (count_name_spec ''cbc'' (count_name_spec ''abc'' (data new_ltrfile)), [])"
proof -
  have z: "CHR 0x00 \<notin> set ''abc''" "CHR 0x00 \<notin> set ''cbc''" by simp_all
  have b1: "build_loop [''abc'', ''cbc''] (data new_ltrfile) []
      = build_loop [''cbc''] (count_name_spec ''abc'' (data new_ltrfile)) []"
    using build_loop_spec [OF z(1), of "[''cbc'']" "data new_ltrfile" "[]"]
    by (simp only: clean_abc_cbc) simp
  have b2: "build_loop [''cbc''] d [] = Some (count_name_spec ''cbc'' d, [])" for d
    using build_loop_spec [OF z(2), of "[]" d "[]"]
    by (simp only: clean_abc_cbc) simp
  show ?thesis unfolding b1 b2 ..
qed

lemma fround_two: "fround False 2 = 0x40000000"
  using fround_mag_of [of 1073741824 False] by (simp add: mag_two mk_float_def)

lemma float_two: "fbits 0x40000000 = 1073741824" "\<not> fsign 0x40000000"
  by (simp_all add: fbits_def fsign_def)

lemma fdiv_one_two: "fdiv 0x3F800000 0x40000000 = 0x3F000000"
proof -
  have a: "\<not> is_nan 0x40000000" "\<not> is_inf 0x40000000"
    by (simp_all add: is_nan_def is_inf_def fexp_def float_two)
  have m: "fmag 0x3F800000 = 1" "fmag 0x40000000 = 2"
    by (simp_all add: fmag_def float_one float_two mag_one mag_two)
  show ?thesis
    unfolding fdiv_def using a finite_one float_one(2) float_two(2)
    by (simp add: m fround_half)
qed

lemma int_of_float_one: "int_of_float 0x3F800000 = 1" "int_of_float 0 = 0"
  by (simp_all add: int_of_float_def finite_one finite_0 fmag_def float_one mag_one)

lemma fgt0_examples: "fgt0 0x3F800000" "\<not> fgt0 0"
  by (simp_all add: fgt0_def finite_one valof_one)

lemma replicate_28: "replicate 28 x = x # x # x # replicate 25 x"
proof -
  have "replicate 28 x = replicate 3 x @ replicate 25 x" by (simp add: replicate_add [symmetric])
  then show ?thesis by (simp add: numeral_3_eq_3)
qed

lemma start_abc_cbc:
  "start (singles (normalize_ltrdata NUM_LETTERS
      (count_name_spec ''cbc'' (count_name_spec ''abc'' (data new_ltrfile)))))
     = [0x3F000000, 0, 0x3F800000] @ replicate 25 0"
proof -
  have l: "letter_at ''abc'' 0 = 0" "letter_at ''cbc'' 0 = 2"
    by (simp_all add: letter_at_def char_facts)
  have s0: "start (singles (data new_ltrfile)) = replicate 28 0"
    by (simp add: new_ltrfile_def zero_cdf_def NUM_LETTERS_def)
  have c: "start (singles (count_name_spec ''cbc'' (count_name_spec ''abc'' (data new_ltrfile))))
      = [0x3F800000, 0, 0x3F800000] @ replicate 25 0"
    unfolding start_singles_count_name_spec l s0 replicate_28
    by (simp add: bump_at_def fadd_one_0)
  have len: "length ([0x3F800000, 0, 0x3F800000] @ replicate 25 (0 :: float)) = NUM_LETTERS"
    by (simp add: NUM_LETTERS_def)
  have sm: "sum_list (map int_of_float ([0x3F800000, 0, 0x3F800000] @ replicate 25 0)) = 2"
    by (simp add: int_of_float_one sum_list_replicate)
  have f2: "float_of_int 2 = 0x40000000"
    by (simp add: float_of_int_def fround_two)
  have "normalize_array NUM_LETTERS ([0x3F800000, 0, 0x3F800000] @ replicate 25 0)
      = normalize_list 0x40000000 0 ([0x3F800000, 0, 0x3F800000] @ replicate 25 0)"
    using normalize_array_list [of "[0x3F800000, 0, 0x3F800000] @ replicate 25 0"]
    unfolding len sm f2 .
  also have "\<dots> = [0x3F000000, 0, 0x3F800000] @ replicate 25 0"
    by (simp add: fgt0_examples fdiv_one_two fadd_h_0 fadd_h_h normalize_list_zeros)
  finally show ?thesis
    by (simp add: normalize_ltrdata_def normalize_cdf_arrays c)
qed

lemma build_table_abc_cbc:
  "build_table ''abc cbc''
     = Some (new_ltrfile\<lparr> data := normalize_ltrdata NUM_LETTERS
               (count_name_spec ''cbc'' (count_name_spec ''abc'' (data new_ltrfile))) \<rparr>, [])"
proof -
  have n: "unat (num_letters (header new_ltrfile)) = NUM_LETTERS"
    by (simp add: new_ltrfile_def NUM_LETTERS_def)
  show ?thesis
    unfolding build_table_def scan_abc_cbc build_loop_abc_cbc by (simp add: n)
qed

lemma middle_singles_short:
  "length w = 3 \<Longrightarrow> middle (singles (count_name_spec w d)) = middle (singles d)"
  by (simp add: count_name_spec_def bump_window_def bump_end_def bump_triple_def bump_double_def
      bump_single_def)

lemma middle_abc_cbc:
  "middle (singles (count_name_spec ''cbc'' (count_name_spec ''abc'' (data new_ltrfile))))
     = replicate 28 0"
  by (simp add: middle_singles_short new_ltrfile_def zero_cdf_def NUM_LETTERS_def)

lemma sum_counts_zeros: "sum_counts NUM_LETTERS (replicate 28 0) = 0"
  using sum_counts_sum_list [of "replicate 28 0"]
  by (simp add: NUM_LETTERS_def int_of_float_one sum_list_replicate)

lemma fne0_one: "fne0 0x3F800000" "\<not> feq0 0x3F800000"
  by (simp_all add: fne0_def feq0_def finite_one valof_one)

lemma fle_examples: "\<not> fle 0x3F000000 0" "fle 0x3F000000 0x3F800000"
  by (simp_all add: fle_def finite_h finite_0 finite_one valof_half valof_one)



end
